theory Spec2Isabelle
  imports Main
begin

section \<open>Python strings\<close>

text \<open>
  A Python \<open>str\<close> is modelled as a \<open>string\<close>; one \<open>char\<close> stands for one code
  point below 256, so \<open>length\<close> is Python's \<open>len\<close>.  \<open>isspace\<close> lists the code
  points below 256 that \<open>str.strip()\<close> removes and that \<open>\s\<close> matches in a \<open>str\<close>
  pattern: U+0009..U+000D, U+001C..U+001F, U+0020, U+0085 and U+00A0.
\<close>

definition isspace :: "char \<Rightarrow> bool" where
  "isspace c \<longleftrightarrow> c \<in> {CHR 0x09, CHR 0x0A, CHR 0x0B, CHR 0x0C, CHR 0x0D,
                    CHR 0x1C, CHR 0x1D, CHR 0x1E, CHR 0x1F, CHR 0x20, CHR 0x85, CHR 0xA0}"

text \<open>\<open>s.strip()\<close>: leading and trailing whitespace removed.\<close>

definition strip :: "string \<Rightarrow> string" where
  "strip s = rev (dropWhile isspace (rev (dropWhile isspace s)))"

text \<open>The guard \<open>not s or not s.strip()\<close>.\<close>

definition blank :: "string \<Rightarrow> bool" where
  "blank s \<longleftrightarrow> s = [] \<or> strip s = []"

text \<open>
  \<open>s.replace(old, new)\<close> for a non-empty \<open>old\<close>: every occurrence, left to right,
  without overlap; the text put in is not scanned again.
\<close>

fun str_replace :: "string \<Rightarrow> string \<Rightarrow> string \<Rightarrow> string" where
  "str_replace old new [] = []"
| "str_replace old new (c # cs) =
     (if old \<noteq> [] \<and> take (length old) (c # cs) = old
      then new @ str_replace old new (drop (length old) (c # cs))
      else c # str_replace old new cs)"

text \<open>The character classes of the patterns: \<open>\d\<close>, \<open>.\<close>, \<open>[.!?]\<close> and \<open>[A-Z]\<close>.\<close>

definition isdigit :: "char \<Rightarrow> bool" where
  "isdigit c \<longleftrightarrow> c \<in> set ''0123456789''"

definition dot :: "char \<Rightarrow> bool" where
  "dot c \<longleftrightarrow> c \<noteq> CHR 0x0A"

definition sentence_end :: "char \<Rightarrow> bool" where
  "sentence_end c \<longleftrightarrow> c \<in> set ''.!?''"

definition upper_AZ :: "char \<Rightarrow> bool" where
  "upper_AZ c \<longleftrightarrow> c \<in> set ''ABCDEFGHIJKLMNOPQRSTUVWXYZ''"

section \<open>The regular expressions of the \<open>re\<close> module\<close>

text \<open>
  The patterns of the repository repeat single characters only, so the syntax tree has
  the repetitions of a character class as leaves: \<open>Many n cls\<close> is the greedy
  \<open>cls{n,}\<close> (\<open>\s*\<close>, \<open>\s+\<close>, \<open>.*\<close>), \<open>Lazy cls\<close> the lazy \<open>cls*?\<close>,
  \<open>Exactly n cls\<close> is \<open>cls{n}\<close>.  \<open>Opt\<close> is the greedy \<open>(?:...)?\<close>, \<open>Group k\<close> the
  k-th capturing group, \<open>Bol\<close> and \<open>Eol\<close> are \<open>^\<close> and \<open>$\<close> without MULTILINE,
  \<open>Behind\<close> and \<open>Ahead\<close> the one-character \<open>(?<=[...])\<close> and \<open>(?=[...])\<close>.
\<close>

datatype regex =
    Lit char
  | Many nat "char \<Rightarrow> bool"
  | Lazy "char \<Rightarrow> bool"
  | Exactly nat "char \<Rightarrow> bool"
  | Seq regex regex
  | Opt regex
  | Group nat regex
  | Bol
  | Eol
  | Behind "char \<Rightarrow> bool"
  | Ahead "char \<Rightarrow> bool"

text \<open>
  A matcher state: the text before the cursor, the text after it, and the groups set
  so far.  \<open>run r st\<close> lists the states in which a match of \<open>r\<close> begun at \<open>st\<close> can
  end, in the order in which the backtracking matcher tries them; the matcher takes
  the first state of the whole pattern's list.
\<close>

type_synonym mstate = "string \<times> string \<times> (nat \<Rightarrow> string option)"

fun run :: "regex \<Rightarrow> mstate \<Rightarrow> mstate list" where
  "run (Lit c) (p, r, g) =
     (case r of [] \<Rightarrow> [] | x # r' \<Rightarrow> if x = c then [(p @ [x], r', g)] else [])"
| "run (Many m cls) (p, r, g) =
     map (\<lambda>n. (p @ take n r, drop n r, g)) (rev [m ..< Suc (length (takeWhile cls r))])"
| "run (Lazy cls) (p, r, g) =
     map (\<lambda>n. (p @ take n r, drop n r, g)) [0 ..< Suc (length (takeWhile cls r))]"
| "run (Exactly n cls) (p, r, g) =
     (if n \<le> length (takeWhile cls r) then [(p @ take n r, drop n r, g)] else [])"
| "run (Seq a b) st = concat (map (run b) (run a st))"
| "run (Opt a) st = run a st @ [st]"
| "run (Group k a) (p, r, g) =
     map (\<lambda>(p', r', g'). (p', r', g'(k := Some (drop (length p) p')))) (run a (p, r, g))"
| "run Bol (p, r, g) = (if p = [] then [(p, r, g)] else [])"
| "run Eol (p, r, g) = (if r = [] \<or> r = [CHR 0x0A] then [(p, r, g)] else [])"
| "run (Behind cls) (p, r, g) = (if p \<noteq> [] \<and> cls (last p) then [(p, r, g)] else [])"
| "run (Ahead cls) (p, r, g) =
     (case r of [] \<Rightarrow> [] | x # _ \<Rightarrow> if cls x then [(p, r, g)] else [])"

text \<open>\<open>re.match(pattern, s)\<close>: the groups of the first match at the start, or None.\<close>

definition re_match :: "regex \<Rightarrow> string \<Rightarrow> (nat \<Rightarrow> string option) option" where
  "re_match pat s =
     (case run pat ([], s, \<lambda>_. None) of [] \<Rightarrow> None | (_, _, g) # _ \<Rightarrow> Some g)"

text \<open>
  \<open>pattern.split(s)\<close>: the scan goes left to right; at the leftmost position where
  the pattern matches, the piece collected so far is closed and the scan goes on
  behind the match.  \<open>split_scan pat p acc r\<close> has read \<open>p\<close>, holds the open piece
  \<open>acc\<close> and has \<open>r\<close> to read.  Neither pattern of the chunker matches the empty
  string; a match that consumes nothing is passed over here.
\<close>

function split_scan :: "regex \<Rightarrow> string \<Rightarrow> string \<Rightarrow> string \<Rightarrow> string list" where
  "split_scan pat p acc r =
     (case run pat (p, r, \<lambda>_. None) of
        (p', r', _) # _ \<Rightarrow>
          if length r' < length r then acc # split_scan pat p' [] r'
          else (case r of [] \<Rightarrow> [acc] | c # cs \<Rightarrow> split_scan pat (p @ [c]) (acc @ [c]) cs)
      | [] \<Rightarrow>
          (case r of [] \<Rightarrow> [acc] | c # cs \<Rightarrow> split_scan pat (p @ [c]) (acc @ [c]) cs))"
  by pat_completeness auto
termination
  by (relation "measure (\<lambda>(pat, p, acc, r). length r)") auto

definition re_split :: "regex \<Rightarrow> string \<Rightarrow> string list" where
  "re_split pat s = split_scan pat [] [] s"

section \<open>SemanticChunker\<close>

text \<open>The paragraph boundary \<open>\n\s*\n\<close>.\<close>

definition paragraph_boundary :: regex where
  "paragraph_boundary = Seq (Lit (CHR 0x0A)) (Seq (Many 0 isspace) (Lit (CHR 0x0A)))"

text \<open>The sentence boundary \<open>(?<=[.!?])\s+(?=[A-Z])\<close>.\<close>

definition sentence_boundaries :: regex where
  "sentence_boundaries = Seq (Behind sentence_end) (Seq (Many 1 isspace) (Ahead upper_AZ))"

text \<open>\<open>_split_by_sentences\<close>: \<open>[s.strip() for s in sentences if s.strip()]\<close>.\<close>

definition split_by_sentences :: "string \<Rightarrow> string list" where
  "split_by_sentences txt =
     map strip (filter (\<lambda>s. strip s \<noteq> []) (re_split sentence_boundaries txt))"

text \<open>
  The inner loop of \<open>chunk_text\<close> over the sentences of an oversized paragraph; the
  state is \<open>(chunks, current_chunk)\<close>, \<open>mx\<close> is \<open>max_chunk_chars\<close>.
\<close>

fun pack_sentences :: "int \<Rightarrow> string list \<Rightarrow> string list \<times> string \<Rightarrow> string list \<times> string" where
  "pack_sentences mx [] st = st"
| "pack_sentences mx (sc # scs) (chunks, current_chunk) =
     (if int (length current_chunk) + int (length sc) + 1 \<le> mx
      then pack_sentences mx scs (chunks, current_chunk @ sc @ '' '')
      else pack_sentences mx scs
             (if current_chunk \<noteq> [] then chunks @ [strip current_chunk] else chunks,
              sc @ '' ''))"

text \<open>The loop of \<open>chunk_text\<close> over the paragraphs.\<close>

fun pack_paragraphs :: "int \<Rightarrow> string list \<Rightarrow> string list \<times> string \<Rightarrow> string list \<times> string" where
  "pack_paragraphs mx [] st = st"
| "pack_paragraphs mx (p # ps) (chunks, current_chunk) =
     (let para = strip p in
      if para = [] then pack_paragraphs mx ps (chunks, current_chunk)
      else if int (length para) > mx
      then pack_paragraphs mx ps
             (pack_sentences mx (split_by_sentences para) (chunks, current_chunk))
      else if int (length current_chunk) + int (length para) + 2 \<le> mx
      then pack_paragraphs mx ps (chunks, current_chunk @ para @ [CHR 0x0A, CHR 0x0A])
      else pack_paragraphs mx ps
             (if current_chunk \<noteq> [] then chunks @ [strip current_chunk] else chunks,
              para @ [CHR 0x0A, CHR 0x0A]))"

definition paragraphs :: "string \<Rightarrow> string list" where
  "paragraphs txt = re_split paragraph_boundary (strip txt)"

definition chunk_text :: "int \<Rightarrow> string \<Rightarrow> string list" where
  "chunk_text mx txt =
     (if blank txt then []
      else case pack_paragraphs mx (paragraphs txt) ([], []) of
             (chunks, current_chunk) \<Rightarrow>
               if strip current_chunk \<noteq> [] then chunks @ [strip current_chunk] else chunks)"

section \<open>MetadataInjector\<close>

text \<open>
  The fields of the pydantic model \<open>ChunkMetadata\<close>.  A metadata dict is a map from
  keys to values; a value is a \<open>str\<close> or \<open>None\<close> (\<open>string option\<close>), which is what
  the pipeline passes.  Keys that are no field of the model are ignored by pydantic.
\<close>

record ChunkMetadata =
  title :: string
  author :: string
  year :: string
  internal_page_number :: string

type_synonym metadata_dict = "string \<Rightarrow> string option option"

datatype validation_error = ValidationError string

text \<open>
  A field declared \<open>str = Field(default="Unknown")\<close> with no validator of its own: an
  absent key takes the default, a \<open>str\<close> is kept as it is, \<open>None\<close> is refused.
\<close>

definition str_field :: "metadata_dict \<Rightarrow> string \<Rightarrow> validation_error + string" where
  "str_field m k =
     (case m k of
        None \<Rightarrow> Inr ''Unknown''
      | Some None \<Rightarrow> Inl (ValidationError k)
      | Some (Some s) \<Rightarrow> Inr s)"

text \<open>
  The validator of \<open>internal_page_number\<close> (\<open>pre=True, always=True\<close>):
  \<open>if not v or str(v).strip() == "": return "Unknown"\<close>, else \<open>str(v).strip()\<close>.
\<close>

definition validate_page_number :: "string option \<Rightarrow> string" where
  "validate_page_number v =
     (case v of
        None \<Rightarrow> ''Unknown''
      | Some s \<Rightarrow> if s = [] \<or> strip s = [] then ''Unknown'' else strip s)"

text \<open>
  \<open>ChunkMetadata(**metadata_dict)\<close>.  With \<open>always=True\<close> the validator also runs on
  the default of an absent \<open>internal_page_number\<close>.
\<close>

definition ChunkMetadata_init :: "metadata_dict \<Rightarrow> validation_error + ChunkMetadata" where
  "ChunkMetadata_init m =
     (case str_field m ''title'' of
        Inl e \<Rightarrow> Inl e
      | Inr t \<Rightarrow>
     (case str_field m ''author'' of
        Inl e \<Rightarrow> Inl e
      | Inr a \<Rightarrow>
     (case str_field m ''year'' of
        Inl e \<Rightarrow> Inl e
      | Inr y \<Rightarrow>
          Inr \<lparr>title = t, author = a, year = y,
               internal_page_number =
                 validate_page_number
                   (case m ''internal_page_number'' of
                      None \<Rightarrow> Some ''Unknown''
                    | Some v \<Rightarrow> v)\<rparr>)))"

text \<open>The \<open>try\<close>/\<open>except\<close> of \<open>inject_metadata\<close>: on a validation error, \<open>ChunkMetadata()\<close>.\<close>

definition validated_meta :: "metadata_dict \<Rightarrow> validation_error + ChunkMetadata" where
  "validated_meta m =
     (case ChunkMetadata_init m of
        Inr v \<Rightarrow> Inr v
      | Inl e \<Rightarrow> ChunkMetadata_init (\<lambda>_. None))"

definition metadata_block :: "ChunkMetadata \<Rightarrow> string" where
  "metadata_block v =
     [CHR 0x0A, CHR 0x0A] @
     ''--------------------------------------------------'' @ [CHR 0x0A] @
     ''**SOURCE METADATA FOR FORENSIC EXTRACTION:**'' @ [CHR 0x0A] @
     ''Title: '' @ title v @ [CHR 0x0A] @
     ''Author: '' @ author v @ [CHR 0x0A] @
     ''Year: '' @ year v @ [CHR 0x0A] @
     ''Internal Pagination: '' @ internal_page_number v @ [CHR 0x0A] @
     ''--------------------------------------------------'' @ [CHR 0x0A]"

text \<open>\<open>inject_metadata\<close>; \<open>Inl\<close> is an exception that leaves the function.\<close>

definition inject_metadata :: "string \<Rightarrow> metadata_dict \<Rightarrow> validation_error + string" where
  "inject_metadata raw_chunk_text m =
     (if blank raw_chunk_text then Inr raw_chunk_text
      else case validated_meta m of
             Inl e \<Rightarrow> Inl e
           | Inr v \<Rightarrow> Inr (strip raw_chunk_text @ metadata_block v))"

section \<open>SyncEngine: the filename parser\<close>

text \<open>
  The pattern \<open>^(?:(\d{4})\s*-\s*)?(?:(.*?)\s*-\s*)?(.*)$\<close> of
  \<open>_parse_filename_metadata\<close>.
\<close>

definition hyphen_sep :: regex where
  "hyphen_sep = Seq (Many 0 isspace) (Seq (Lit (CHR ''-'')) (Many 0 isspace))"

text \<open>
  The three parts, as the comment in the source explains them: the optional year
  \<open>(?:(\d{4})\s*-\s*)?\<close>, the optional author \<open>(?:(.*?)\s*-\s*)?\<close> and the title
  \<open>(.*)$\<close>.
\<close>

definition year_part :: regex where
  "year_part = Opt (Seq (Group 1 (Exactly 4 isdigit)) hyphen_sep)"

definition author_part :: regex where
  "author_part = Opt (Seq (Group 2 (Lazy dot)) hyphen_sep)"

definition title_part :: regex where
  "title_part = Seq (Group 3 (Many 0 dot)) Eol"

definition filename_pattern :: regex where
  "filename_pattern = Seq Bol (Seq year_part (Seq author_part title_part))"

text \<open>\<open>filename.replace(".pdf", "").strip()\<close>.\<close>

definition clean_name :: "string \<Rightarrow> string" where
  "clean_name filename = strip (str_replace ''.pdf'' [] filename)"

text \<open>The truth value of \<open>match.group(k)\<close>: neither \<open>None\<close> nor empty.\<close>

definition truthy :: "string option \<Rightarrow> bool" where
  "truthy v = (case v of None \<Rightarrow> False | Some s \<Rightarrow> s \<noteq> [])"

definition group_text :: "string option \<Rightarrow> string" where
  "group_text v = (case v of None \<Rightarrow> [] | Some s \<Rightarrow> s)"

text \<open>The assignments under \<open>if match:\<close>, on the triple \<open>(year, author, title)\<close>.\<close>

definition assign_groups ::
  "string option \<Rightarrow> string option \<Rightarrow> string option \<Rightarrow> string \<Rightarrow> string \<times> string \<times> string" where
  "assign_groups extracted_year extracted_author extracted_title cn =
     (let year0 = (if truthy extracted_year then strip (group_text extracted_year) else ''Unknown'');
          author0 = (if truthy extracted_author then strip (group_text extracted_author) else ''Unknown'')
      in if truthy extracted_title then (year0, author0, strip (group_text extracted_title))
         else if truthy extracted_author \<and> \<not> truthy extracted_title
         then (year0, ''Unknown'', strip (group_text extracted_author))
         else (year0, author0, cn))"

definition parse_filename_metadata :: "string \<Rightarrow> string \<times> string \<times> string" where
  "parse_filename_metadata filename =
     (let cn = clean_name filename in
      case re_match filename_pattern cn of
        None \<Rightarrow> (''Unknown'', ''Unknown'', cn)
      | Some g \<Rightarrow> assign_groups (g 1) (g 2) (g 3) cn)"

section \<open>DBManager\<close>

text \<open>
  A document of the TinyDB table \<open>uploaded_files\<close> as \<open>mark_file_as_processed\<close>
  writes it, and the table as the list of its documents in insertion order.  A
  checksum is what Drive returned for the file: a \<open>str\<close>, or \<open>None\<close> when Drive gave
  no \<open>md5Checksum\<close>.
\<close>

record db_doc =
  doc_file_id :: string
  doc_file_name :: string
  checksum :: "string option"
  status :: string

type_synonym file_table = "db_doc list"

text \<open>\<open>table.get(FileQuery.file_id == file_id)\<close>: the first document that matches.\<close>

definition table_get :: "file_table \<Rightarrow> string \<Rightarrow> db_doc option" where
  "table_get t fid = find (\<lambda>d. doc_file_id d = fid) t"

text \<open>
  \<open>table.upsert(doc, FileQuery.file_id == file_id)\<close>: every matching document is
  updated with the fields of \<open>doc\<close> (here all four); with no match \<open>doc\<close> is inserted.
\<close>

definition table_upsert :: "db_doc \<Rightarrow> string \<Rightarrow> file_table \<Rightarrow> file_table" where
  "table_upsert doc fid t =
     (if list_ex (\<lambda>d. doc_file_id d = fid) t
      then map (\<lambda>d. if doc_file_id d = fid then doc else d) t
      else t @ [doc])"

definition check_file_status :: "file_table \<Rightarrow> string \<Rightarrow> bool \<times> string option" where
  "check_file_status db fid =
     (case table_get db fid of
        Some result \<Rightarrow> (True, checksum result)
      | None \<Rightarrow> (False, None))"

text \<open>
  An exception that a call raises, with its message: \<open>Exception\<close> is one derived from
  \<open>Exception\<close>, which \<open>except Exception\<close> catches; \<open>BaseException\<close> is one derived
  from \<open>BaseException\<close> only (\<open>asyncio.CancelledError\<close>, \<open>KeyboardInterrupt\<close>,
  \<open>SystemExit\<close>), which \<open>except Exception\<close> lets pass.
\<close>

datatype exn = Exception string | BaseException string

definition synced_doc :: "string \<Rightarrow> string \<Rightarrow> string option \<Rightarrow> db_doc" where
  "synced_doc fid fname cs =
     \<lparr>doc_file_id = fid, doc_file_name = fname, checksum = cs, status = ''synced''\<rparr>"

text \<open>
  \<open>mark_file_as_processed\<close>.  \<open>storage_error\<close> says whether the write of a document
  raises; the exception is logged and raised again, and the table is then taken to
  be as it was.
\<close>

definition mark_file_as_processed ::
  "(db_doc \<Rightarrow> exn option) \<Rightarrow> string \<Rightarrow> string \<Rightarrow> string option \<Rightarrow> file_table \<Rightarrow> exn + file_table" where
  "mark_file_as_processed storage_error fid fname cs db =
     (case storage_error (synced_doc fid fname cs) of
        Some e \<Rightarrow> Inl e
      | None \<Rightarrow> Inr (table_upsert (synced_doc fid fname cs) fid db))"

section \<open>SyncEngine: the delta comparison\<close>

text \<open>An entry of the Drive listing: the keys \<open>id\<close>, \<open>name\<close> and \<open>md5Checksum\<close>.\<close>

record drive_file =
  file_id :: string
  file_name :: string
  md5Checksum :: "string option"

text \<open>The loop of \<open>_get_files_to_process\<close>, \<open>processing_queue\<close> as the accumulator.\<close>

fun files_to_process_loop :: "file_table \<Rightarrow> drive_file list \<Rightarrow> drive_file list \<Rightarrow> drive_file list" where
  "files_to_process_loop db [] processing_queue = processing_queue"
| "files_to_process_loop db (file # rest) processing_queue =
     (case check_file_status db (file_id file) of
        (is_processed, stored_checksum) \<Rightarrow>
          if \<not> is_processed then files_to_process_loop db rest (processing_queue @ [file])
          else if stored_checksum \<noteq> md5Checksum file
          then files_to_process_loop db rest (processing_queue @ [file])
          else files_to_process_loop db rest processing_queue)"

definition get_files_to_process :: "file_table \<Rightarrow> drive_file list \<Rightarrow> drive_file list" where
  "get_files_to_process db drive_files = files_to_process_loop db drive_files []"

section \<open>SyncEngine: the per-file pipeline\<close>

text \<open>A page as \<open>extract_document\<close> returns it.\<close>

record page =
  page_index :: nat
  page_text :: string
  page_internal_page_number :: string

text \<open>
  The collaborators of a worker, each a function from its arguments to what the call
  does: it raises (\<open>Inl\<close>, or \<open>Some\<close> for a call without a result) or returns.
\<close>

record collaborators =
  download_file :: "string \<Rightarrow> string \<Rightarrow> exn + string option"
  extract_document :: "string \<Rightarrow> exn + page list"
  write_text_file :: "string \<Rightarrow> string \<Rightarrow> exn option"
  upload_file_to_store :: "string \<Rightarrow> string \<Rightarrow> exn + string"
  storage_error :: "db_doc \<Rightarrow> exn option"

text \<open>\<open>sep.join(xs)\<close>.\<close>

fun str_join :: "string \<Rightarrow> string list \<Rightarrow> string" where
  "str_join sep [] = []"
| "str_join sep [x] = x"
| "str_join sep (x # y # ys) = x @ sep @ str_join sep (y # ys)"

text \<open>The inner loop over the chunks of one page, and the loop over the pages.\<close>

fun enrich_chunks :: "metadata_dict \<Rightarrow> string list \<Rightarrow> exn + string list" where
  "enrich_chunks meta [] = Inr []"
| "enrich_chunks meta (chunk # chunks) =
     (case inject_metadata chunk meta of
        Inl (ValidationError k) \<Rightarrow> Inl (Exception k)
      | Inr enriched_chunk \<Rightarrow>
          (case enrich_chunks meta chunks of
             Inl e \<Rightarrow> Inl e
           | Inr bs \<Rightarrow> Inr (enriched_chunk # bs)))"

definition page_meta :: "string \<Rightarrow> string \<Rightarrow> string \<Rightarrow> page \<Rightarrow> metadata_dict" where
  "page_meta ttl auth yr pg =
     (\<lambda>_. None)(''title'' := Some (Some ttl), ''author'' := Some (Some auth),
       ''year'' := Some (Some yr),
       ''internal_page_number'' := Some (Some (page_internal_page_number pg)))"

fun enrich_pages :: "int \<Rightarrow> string \<Rightarrow> string \<Rightarrow> string \<Rightarrow> page list \<Rightarrow> exn + string list" where
  "enrich_pages mx ttl auth yr [] = Inr []"
| "enrich_pages mx ttl auth yr (pg # pgs) =
     (case enrich_chunks (page_meta ttl auth yr pg) (chunk_text mx (page_text pg)) of
        Inl e \<Rightarrow> Inl e
      | Inr bs \<Rightarrow>
          (case enrich_pages mx ttl auth yr pgs of
             Inl e \<Rightarrow> Inl e
           | Inr bs' \<Rightarrow> Inr (bs @ bs')))"

text \<open>
  The body of the \<open>try\<close> of \<open>_process_single_file\<close>: \<open>Inl\<close> is an exception raised in
  it, \<open>Inr\<close> the value it returns (falling out of the \<open>try\<close> reaches the final
  \<open>return False\<close>) with the table after it.
\<close>

definition process_single_file_try ::
  "collaborators \<Rightarrow> int \<Rightarrow> drive_file \<Rightarrow> string \<Rightarrow> file_table \<Rightarrow> exn + bool \<times> file_table" where
  "process_single_file_try c mx file vector_store_id db =
     (case download_file c (file_id file) (file_name file) of
        Inl e \<Rightarrow> Inl e
      | Inr None \<Rightarrow> Inl (Exception ''Download returned no path.'')
      | Inr (Some local_path) \<Rightarrow>
          if local_path = [] then Inl (Exception ''Download returned no path.'')
          else
     (case parse_filename_metadata (file_name file) of
        (yr, auth, ttl) \<Rightarrow>
     (case extract_document c local_path of
        Inl e \<Rightarrow> Inl e
      | Inr extracted_pages \<Rightarrow>
     (case enrich_pages mx ttl auth yr extracted_pages of
        Inl e \<Rightarrow> Inl e
      | Inr final_text_blocks \<Rightarrow>
     (case write_text_file c (local_path @ ''_processed.txt'')
             (str_join [CHR 0x0A, CHR 0x0A] final_text_blocks) of
        Some e \<Rightarrow> Inl e
      | None \<Rightarrow>
     (case upload_file_to_store c (local_path @ ''_processed.txt'') vector_store_id of
        Inl e \<Rightarrow> Inl e
      | Inr upload_status \<Rightarrow>
          if upload_status \<noteq> []
          then (case mark_file_as_processed (storage_error c) (file_id file) (file_name file)
                       (md5Checksum file) db of
                  Inl e \<Rightarrow> Inl e
                | Inr db' \<Rightarrow> Inr (True, db'))
          else Inr (False, db)))))))"

text \<open>
  \<open>_process_single_file\<close>: what the coroutine does, and the table after it.
  \<open>except Exception\<close> logs an exception derived from \<open>Exception\<close> and returns False;
  any other exception leaves the coroutine (\<open>Inl\<close>).
\<close>

definition process_single_file ::
  "collaborators \<Rightarrow> int \<Rightarrow> drive_file \<Rightarrow> string \<Rightarrow> file_table \<Rightarrow> (exn + bool) \<times> file_table" where
  "process_single_file c mx file vector_store_id db =
     (case process_single_file_try c mx file vector_store_id db of
        Inl (Exception msg) \<Rightarrow> (Inr False, db)
      | Inl (BaseException msg) \<Rightarrow> (Inl (BaseException msg), db)
      | Inr (result, db') \<Rightarrow> (Inr result, db'))"

section \<open>SyncEngine: the batch\<close>

text \<open>
  \<open>asyncio.gather(*tasks)\<close> without \<open>return_exceptions\<close>.  The tasks are run to their
  results one after the other in the order of \<open>files\<close>; the table is the only state
  they share.  The first exception that leaves a task leaves \<open>gather\<close> at once
  (\<open>Inl\<close>); what the tasks still pending do then is not modelled.
\<close>

fun gather ::
  "collaborators \<Rightarrow> int \<Rightarrow> string \<Rightarrow> drive_file list \<Rightarrow> file_table \<Rightarrow> exn + bool list \<times> file_table" where
  "gather c mx vector_store_id [] db = Inr ([], db)"
| "gather c mx vector_store_id (file # files) db =
     (case process_single_file c mx file vector_store_id db of
        (Inl e, db') \<Rightarrow> Inl e
      | (Inr result, db') \<Rightarrow>
          (case gather c mx vector_store_id files db' of
             Inl e \<Rightarrow> Inl e
           | Inr (results, db'') \<Rightarrow> Inr (result # results, db'')))"


section \<open>SyncEngine: the admission gate\<close>

text \<open>
  The life of one task of \<open>_process_file_batch\<close>.  A task is created \<open>Discovered\<close>;
  it is inside \<open>async with semaphore\<close> from \<open>Downloading\<close> to \<open>Uploading\<close> and leaves
  the block for \<open>Recorded\<close> (\<open>return True\<close>) or \<open>Failed\<close> (an exception, or an upload
  status that is not true).
\<close>

datatype stage = Discovered | Downloading | Extracting | Chunking | Uploading | Recorded | Failed

fun in_section :: "stage \<Rightarrow> bool" where
  "in_section Downloading = True"
| "in_section Extracting = True"
| "in_section Chunking = True"
| "in_section Uploading = True"
| "in_section _ = False"

definition max_concurrent_tasks :: nat where
  "max_concurrent_tasks = 10"

text \<open>The value of the semaphore and the stage of every task.\<close>

record batch_state =
  permits :: nat
  stages :: "stage list"

definition batch_start :: "nat \<Rightarrow> batch_state" where
  "batch_start n = \<lparr>permits = max_concurrent_tasks, stages = replicate n Discovered\<rparr>"

text \<open>
  What the event loop can do with task \<open>i\<close>: let it through \<open>semaphore.acquire()\<close>
  (only while the value is positive), move it to its next stage, let it return True
  after the upload, or let it fail; leaving the block releases the semaphore.
\<close>

datatype event = Acquire nat | Advance nat | ReturnTrue nat | Fail nat

fun next_stage :: "stage \<Rightarrow> stage option" where
  "next_stage Downloading = Some Extracting"
| "next_stage Extracting = Some Chunking"
| "next_stage Chunking = Some Uploading"
| "next_stage _ = None"

fun fire :: "event \<Rightarrow> batch_state \<Rightarrow> batch_state option" where
  "fire (Acquire i) s =
     (if i < length (stages s) \<and> stages s ! i = Discovered \<and> 0 < permits s
      then Some \<lparr>permits = permits s - 1, stages = (stages s)[i := Downloading]\<rparr>
      else None)"
| "fire (Advance i) s =
     (if i < length (stages s)
      then (case next_stage (stages s ! i) of
              Some st \<Rightarrow> Some \<lparr>permits = permits s, stages = (stages s)[i := st]\<rparr>
            | None \<Rightarrow> None)
      else None)"
| "fire (ReturnTrue i) s =
     (if i < length (stages s) \<and> stages s ! i = Uploading
      then Some \<lparr>permits = permits s + 1, stages = (stages s)[i := Recorded]\<rparr>
      else None)"
| "fire (Fail i) s =
     (if i < length (stages s) \<and> in_section (stages s ! i)
      then Some \<lparr>permits = permits s + 1, stages = (stages s)[i := Failed]\<rparr>
      else None)"

text \<open>A schedule is a list of events; it runs as long as each event is enabled.\<close>

fun run_schedule :: "event list \<Rightarrow> batch_state \<Rightarrow> batch_state option" where
  "run_schedule [] s = Some s"
| "run_schedule (e # es) s =
     (case fire e s of None \<Rightarrow> None | Some s' \<Rightarrow> run_schedule es s')"

definition in_flight :: "batch_state \<Rightarrow> nat" where
  "in_flight s = length (filter in_section (stages s))"

section \<open>Facts about strings\<close>

lemma strip_eq_Nil_iff: "strip s = [] \<longleftrightarrow> (\<forall>c\<in>set s. isspace c)"
proof
  assume "strip s = []"
  then have all: "\<forall>c\<in>set (dropWhile isspace s). isspace c"
    by (simp add: strip_def)
  have "dropWhile isspace s = []"
  proof (rule ccontr)
    assume ne: "dropWhile isspace s \<noteq> []"
    then have "\<not> isspace (hd (dropWhile isspace s))" by (rule hd_dropWhile)
    moreover from ne have "hd (dropWhile isspace s) \<in> set (dropWhile isspace s)" by simp
    ultimately show False using all by blast
  qed
  then show "\<forall>c\<in>set s. isspace c" by simp
next
  assume "\<forall>c\<in>set s. isspace c"
  then show "strip s = []" by (auto simp: strip_def dest: set_dropWhileD)
qed

lemma blank_iff: "blank s \<longleftrightarrow> (\<forall>c\<in>set s. isspace c)"
  by (auto simp: blank_def strip_eq_Nil_iff)

section \<open>MetadataInjector: properties\<close>

text \<open>
  Claim C7.  For every metadata dict and every chunk text that is empty or consists of
  whitespace only, \<open>inject_metadata\<close> returns the chunk text unchanged and raises
  nothing: no chunk that holds metadata only is produced.
\<close>

theorem inject_metadata_blank_noop:
  assumes "\<forall>ch\<in>set c. isspace ch"
  shows "inject_metadata c m = Inr c"
  using assms by (simp add: inject_metadata_def blank_iff)

theorem inject_metadata_blank_noop_witness:
  "list_all isspace [CHR '' '', CHR 0x0A] \<and>
   inject_metadata [CHR '' '', CHR 0x0A] (page_meta ''T'' ''A'' ''2020'' \<lparr>page_index = 0, page_text = [], page_internal_page_number = ''7''\<rparr>) = Inr [CHR '' '', CHR 0x0A] \<and>
   inject_metadata [] (page_meta ''T'' ''A'' ''2020'' \<lparr>page_index = 0, page_text = [], page_internal_page_number = ''7''\<rparr>) = Inr []"
  using inject_metadata_blank_noop [of "[CHR '' '', CHR 0x0A]"] inject_metadata_blank_noop [of "[]"]
  by (simp add: isspace_def)

lemma ChunkMetadata_init_empty:
  "ChunkMetadata_init (\<lambda>_. None) =
     Inr \<lparr>title = ''Unknown'', author = ''Unknown'', year = ''Unknown'',
          internal_page_number = ''Unknown''\<rparr>"
  by (simp add: ChunkMetadata_init_def str_field_def validate_page_number_def strip_def isspace_def)

lemma validate_page_number_blank:
  "v = None \<or> (\<exists>s. v = Some s \<and> (\<forall>ch\<in>set s. isspace ch)) \<Longrightarrow> validate_page_number v = ''Unknown''"
  by (auto simp: validate_page_number_def strip_eq_Nil_iff)

lemma str_field_default:
  "str_field m k = Inr s \<Longrightarrow> m k = None \<or> m k = Some None \<Longrightarrow> s = ''Unknown''"
  by (auto simp: str_field_def split: option.splits)

lemma ChunkMetadata_init_Inr:
  assumes "ChunkMetadata_init m = Inr v"
  shows "str_field m ''title'' = Inr (title v)"
    and "str_field m ''author'' = Inr (author v)"
    and "str_field m ''year'' = Inr (year v)"
    and "internal_page_number v = validate_page_number
           (case m ''internal_page_number'' of None \<Rightarrow> Some ''Unknown'' | Some x \<Rightarrow> x)"
  using assms by (auto simp: ChunkMetadata_init_def split: sum.splits)

lemma page_number_default:
  assumes "k = None \<or> k = Some None \<or> (\<exists>s. k = Some (Some s) \<and> (\<forall>ch\<in>set s. isspace ch))"
  shows "validate_page_number (case k of None \<Rightarrow> Some ''Unknown'' | Some x \<Rightarrow> x) = ''Unknown''"
proof -
  have u: "validate_page_number (Some ''Unknown'') = ''Unknown''"
    by (simp add: validate_page_number_def strip_def isspace_def)
  from assms consider "k = None" | "k = Some None"
    | s where "k = Some (Some s)" "\<forall>ch\<in>set s. isspace ch"
    by blast
  then show ?thesis
  proof cases
    case 1
    then show ?thesis by (simp add: u)
  next
    case 2
    then show ?thesis by (simp add: validate_page_number_def)
  next
    case 3
    then show ?thesis by (simp add: validate_page_number_blank)
  qed
qed

lemma validated_meta_cases:
  obtains v where "validated_meta m = Inr v"
    and "m ''title'' = None \<or> m ''title'' = Some None \<longrightarrow> title v = ''Unknown''"
    and "m ''author'' = None \<or> m ''author'' = Some None \<longrightarrow> author v = ''Unknown''"
    and "m ''year'' = None \<or> m ''year'' = Some None \<longrightarrow> year v = ''Unknown''"
    and "m ''internal_page_number'' = None \<or> m ''internal_page_number'' = Some None \<or>
      (\<exists>s. m ''internal_page_number'' = Some (Some s) \<and> (\<forall>ch\<in>set s. isspace ch))
        \<longrightarrow> internal_page_number v = ''Unknown''"
proof (cases "ChunkMetadata_init m")
  case (Inl e)
  then have "validated_meta m = Inr \<lparr>title = ''Unknown'', author = ''Unknown'', year = ''Unknown'',
          internal_page_number = ''Unknown''\<rparr>"
    by (simp add: validated_meta_def ChunkMetadata_init_empty)
  then show ?thesis by (rule that) simp_all
next
  case (Inr v)
  note f = ChunkMetadata_init_Inr [OF Inr]
  have "validated_meta m = Inr v" using Inr by (simp add: validated_meta_def)
  then show ?thesis
  proof (rule that)
    show "m ''title'' = None \<or> m ''title'' = Some None \<longrightarrow> title v = ''Unknown''"
      using str_field_default [OF f(1)] by (rule impI)
    show "m ''author'' = None \<or> m ''author'' = Some None \<longrightarrow> author v = ''Unknown''"
      using str_field_default [OF f(2)] by (rule impI)
    show "m ''year'' = None \<or> m ''year'' = Some None \<longrightarrow> year v = ''Unknown''"
      using str_field_default [OF f(3)] by (rule impI)
    show "m ''internal_page_number'' = None \<or> m ''internal_page_number'' = Some None \<or>
      (\<exists>s. m ''internal_page_number'' = Some (Some s) \<and> (\<forall>ch\<in>set s. isspace ch))
        \<longrightarrow> internal_page_number v = ''Unknown''"
      unfolding f(4) using page_number_default by (rule impI)
  qed
qed

text \<open>
  What the code does for the defaults.  \<open>inject_metadata\<close> raises for no metadata dict
  and no chunk text.  For a chunk text that is not blank the result is the stripped
  text followed by the metadata block of the validated fields, where: the internal
  page number is \<open>Unknown\<close> when its key is absent, \<open>None\<close>, empty or whitespace only;
  title, author and year are \<open>Unknown\<close> when their key is absent or \<open>None\<close>.
\<close>

lemma inject_metadata_absent_defaults:
  "\<exists>v. validated_meta m = Inr v \<and>
     inject_metadata c m = Inr (if blank c then c else strip c @ metadata_block v) \<and>
     (m ''title'' = None \<or> m ''title'' = Some None \<longrightarrow> title v = ''Unknown'') \<and>
     (m ''author'' = None \<or> m ''author'' = Some None \<longrightarrow> author v = ''Unknown'') \<and>
     (m ''year'' = None \<or> m ''year'' = Some None \<longrightarrow> year v = ''Unknown'') \<and>
     (m ''internal_page_number'' = None \<or> m ''internal_page_number'' = Some None \<or>
      (\<exists>s. m ''internal_page_number'' = Some (Some s) \<and> (\<forall>ch\<in>set s. isspace ch))
        \<longrightarrow> internal_page_number v = ''Unknown'')"
proof (rule validated_meta_cases [of m])
  fix v
  assume v: "validated_meta m = Inr v"
    and d: "m ''title'' = None \<or> m ''title'' = Some None \<longrightarrow> title v = ''Unknown''"
     "m ''author'' = None \<or> m ''author'' = Some None \<longrightarrow> author v = ''Unknown''"
     "m ''year'' = None \<or> m ''year'' = Some None \<longrightarrow> year v = ''Unknown''"
     "m ''internal_page_number'' = None \<or> m ''internal_page_number'' = Some None \<or>
      (\<exists>s. m ''internal_page_number'' = Some (Some s) \<and> (\<forall>ch\<in>set s. isspace ch))
        \<longrightarrow> internal_page_number v = ''Unknown''"
  from v have "inject_metadata c m = Inr (if blank c then c else strip c @ metadata_block v)"
    by (simp add: inject_metadata_def)
  with v d show ?thesis
    by (intro exI [of _ v] conjI)
qed

text \<open>\<open>inject_metadata("body", {})\<close>: all four fields are \<open>Unknown\<close>.\<close>

lemma inject_metadata_empty_dict:
  "inject_metadata ''body'' (\<lambda>_. None) =
     Inr ''body\<newline>\<newline>--------------------------------------------------\<newline>**SOURCE METADATA FOR FORENSIC EXTRACTION:**\<newline>Title: Unknown\<newline>Author: Unknown\<newline>Year: Unknown\<newline>Internal Pagination: Unknown\<newline>--------------------------------------------------\<newline>''"
  using inject_metadata_absent_defaults [of "\<lambda>_. None" "''body''"]
  by (auto simp: metadata_block_def blank_def strip_def isspace_def)

text \<open>
  Claim C3.  The claim has each of the four fields of the block equal to \<open>Unknown\<close>
  whenever its key is absent, empty or whitespace only.  The code does so for
  \<open>internal_page_number\<close> alone, the one field with the validator
  \<open>validate_page_number\<close>; \<open>title\<close>, \<open>author\<close> and \<open>year\<close> are declared \<open>str\<close> with a
  default and no validator, so a string that is empty or whitespace only is kept.
  \<open>inject_metadata("body", {"title": "", "author": " ", "year": "",
  "internal_page_number": " "})\<close> returns a block with \<open>Title: \<close>, \<open>Author:  \<close> and
  \<open>Year: \<close> and with \<open>Internal Pagination: Unknown\<close>, where the claim, the docstring of
  \<open>ChunkMetadata\<close> (\<open>Ensures no hallucination happens due to missing fields\<close>) and the
  validator of the fourth field call for \<open>Unknown\<close> in all four lines.
\<close>

theorem inject_metadata_blank_fields_kept:
  "inject_metadata ''body''
     ((\<lambda>_. None)(''title'' := Some (Some []), ''author'' := Some (Some '' ''),
        ''year'' := Some (Some []), ''internal_page_number'' := Some (Some '' ''))) =
     Inr ''body\<newline>\<newline>--------------------------------------------------\<newline>**SOURCE METADATA FOR FORENSIC EXTRACTION:**\<newline>Title: \<newline>Author:  \<newline>Year: \<newline>Internal Pagination: Unknown\<newline>--------------------------------------------------\<newline>''"
  by (simp add: inject_metadata_def validated_meta_def ChunkMetadata_init_def str_field_def
      validate_page_number_def metadata_block_def blank_def strip_def isspace_def)

section \<open>The delta comparison: properties\<close>

lemma table_get_None: "table_get db fid = None \<longleftrightarrow> (\<forall>d\<in>set db. doc_file_id d \<noteq> fid)"
  by (auto simp: table_get_def find_None_iff)

lemma table_get_SomeD: "table_get db fid = Some d \<Longrightarrow> d \<in> set db \<and> doc_file_id d = fid"
  unfolding table_get_def by (induction db) (auto split: if_splits)

lemma files_to_process_loop_filter:
  "files_to_process_loop db files q =
     q @ filter (\<lambda>f. (\<forall>d\<in>set db. doc_file_id d \<noteq> file_id f) \<or>
                      (\<exists>d. table_get db (file_id f) = Some d \<and> checksum d \<noteq> md5Checksum f)) files"
proof (induction files arbitrary: q)
  case Nil
  show ?case by simp
next
  case (Cons f files)
  show ?case
  proof (cases "table_get db (file_id f)")
    case None
    then have "\<forall>d\<in>set db. doc_file_id d \<noteq> file_id f"
      by (simp add: table_get_None)
    with None show ?thesis
      using Cons by (simp add: check_file_status_def)
  next
    case (Some d)
    then have "\<not> (\<forall>d\<in>set db. doc_file_id d \<noteq> file_id f)"
      by (auto dest: table_get_SomeD)
    with Some show ?thesis
      using Cons by (auto simp: check_file_status_def)
  qed
qed

text \<open>
  Claim C1.  For every listing and every table, the queue of \<open>_get_files_to_process\<close>
  is the listing filtered, in its order, by: no document of the table has the entry's
  id, or the document found for the id holds a checksum other than the entry's
  \<open>md5Checksum\<close>.  Entries whose stored checksum equals the remote one are left out.
\<close>

theorem get_files_to_process_selects:
  "get_files_to_process db files =
     filter (\<lambda>f. (\<forall>d\<in>set db. doc_file_id d \<noteq> file_id f) \<or>
                 (\<exists>d. table_get db (file_id f) = Some d \<and> checksum d \<noteq> md5Checksum f)) files"
  by (simp add: get_files_to_process_def files_to_process_loop_filter)

theorem get_files_to_process_selects_witness:
  "get_files_to_process
     [synced_doc ''a'' ''a.pdf'' (Some ''x''), synced_doc ''b'' ''b.pdf'' (Some ''y'')]
     [\<lparr>file_id = ''c'', file_name = ''c.pdf'', md5Checksum = Some ''w''\<rparr>,
      \<lparr>file_id = ''a'', file_name = ''a.pdf'', md5Checksum = Some ''x''\<rparr>,
      \<lparr>file_id = ''b'', file_name = ''b.pdf'', md5Checksum = Some ''z''\<rparr>]
   = [\<lparr>file_id = ''c'', file_name = ''c.pdf'', md5Checksum = Some ''w''\<rparr>,
      \<lparr>file_id = ''b'', file_name = ''b.pdf'', md5Checksum = Some ''z''\<rparr>]"
  using get_files_to_process_selects
    [of "[synced_doc ''a'' ''a.pdf'' (Some ''x''), synced_doc ''b'' ''b.pdf'' (Some ''y'')]"
        "[\<lparr>file_id = ''c'', file_name = ''c.pdf'', md5Checksum = Some ''w''\<rparr>,
          \<lparr>file_id = ''a'', file_name = ''a.pdf'', md5Checksum = Some ''x''\<rparr>,
          \<lparr>file_id = ''b'', file_name = ''b.pdf'', md5Checksum = Some ''z''\<rparr>]"]
  by (simp add: table_get_def synced_doc_def)

section \<open>The store: properties\<close>

lemma find_replace_same:
  "doc_file_id doc = fid \<Longrightarrow>
   find (\<lambda>d. doc_file_id d = fid) (map (\<lambda>d. if doc_file_id d = fid then doc else d) t) =
     (if list_ex (\<lambda>d. doc_file_id d = fid) t then Some doc else None)"
  by (induction t) auto

lemma find_replace_other:
  "doc_file_id doc = fid \<Longrightarrow> fid' \<noteq> fid \<Longrightarrow>
   find (\<lambda>d. doc_file_id d = fid') (map (\<lambda>d. if doc_file_id d = fid then doc else d) t) =
   find (\<lambda>d. doc_file_id d = fid') t"
  by (induction t) auto

lemma find_append:
  "find P (xs @ ys) = (case find P xs of Some x \<Rightarrow> Some x | None \<Rightarrow> find P ys)"
  by (induction xs) auto

lemma table_get_upsert:
  assumes "doc_file_id doc = fid"
  shows "table_get (table_upsert doc fid t) fid' =
           (if fid' = fid then Some doc else table_get t fid')"
proof (cases "list_ex (\<lambda>d. doc_file_id d = fid) t")
  case True
  with assms show ?thesis
    by (simp add: table_get_def table_upsert_def find_replace_same find_replace_other)
next
  case False
  then have "find (\<lambda>d. doc_file_id d = fid) t = None"
    by (simp add: find_None_iff list_ex_iff)
  with False assms show ?thesis
    by (auto simp: table_get_def table_upsert_def find_append split: option.splits)
qed

section \<open>The per-file pipeline: properties\<close>

text \<open>
  The body of the \<open>try\<close> raises, or returns False and leaves the table as it was, or
  every stage has succeeded, the upload status is true and the document of the file has
  been upserted.
\<close>

lemma process_single_file_try_cases:
  "(\<exists>e. process_single_file_try c mx f vs db = Inl e) \<or>
   process_single_file_try c mx f vs db = Inr (False, db) \<or>
   (process_single_file_try c mx f vs db =
      Inr (True, table_upsert (synced_doc (file_id f) (file_name f) (md5Checksum f)) (file_id f) db) \<and>
    storage_error c (synced_doc (file_id f) (file_name f) (md5Checksum f)) = None \<and>
    (\<exists>local_path pages blocks upload_status.
       download_file c (file_id f) (file_name f) = Inr (Some local_path) \<and> local_path \<noteq> [] \<and>
       extract_document c local_path = Inr pages \<and>
       enrich_pages mx (snd (snd (parse_filename_metadata (file_name f))))
          (fst (snd (parse_filename_metadata (file_name f))))
          (fst (parse_filename_metadata (file_name f))) pages = Inr blocks \<and>
       write_text_file c (local_path @ ''_processed.txt'') (str_join [CHR 0x0A, CHR 0x0A] blocks) = None \<and>
       upload_file_to_store c (local_path @ ''_processed.txt'') vs = Inr upload_status \<and>
       upload_status \<noteq> []))"
  unfolding process_single_file_try_def mark_file_as_processed_def
  by (auto split: sum.splits option.splits prod.splits if_splits)

lemma process_single_file_cases:
  "process_single_file c mx f vs db = (Inr False, db) \<or>
   (\<exists>msg. process_single_file_try c mx f vs db = Inl (BaseException msg) \<and>
      process_single_file c mx f vs db = (Inl (BaseException msg), db)) \<or>
   (process_single_file c mx f vs db =
      (Inr True, table_upsert (synced_doc (file_id f) (file_name f) (md5Checksum f)) (file_id f) db) \<and>
    storage_error c (synced_doc (file_id f) (file_name f) (md5Checksum f)) = None \<and>
    (\<exists>local_path pages blocks upload_status.
       download_file c (file_id f) (file_name f) = Inr (Some local_path) \<and> local_path \<noteq> [] \<and>
       extract_document c local_path = Inr pages \<and>
       enrich_pages mx (snd (snd (parse_filename_metadata (file_name f))))
          (fst (snd (parse_filename_metadata (file_name f))))
          (fst (parse_filename_metadata (file_name f))) pages = Inr blocks \<and>
       write_text_file c (local_path @ ''_processed.txt'') (str_join [CHR 0x0A, CHR 0x0A] blocks) = None \<and>
       upload_file_to_store c (local_path @ ''_processed.txt'') vs = Inr upload_status \<and>
       upload_status \<noteq> []))"
proof -
  from process_single_file_try_cases [of c mx f vs db]
  consider e where "process_single_file_try c mx f vs db = Inl e"
    | "process_single_file_try c mx f vs db = Inr (False, db)"
    | "process_single_file_try c mx f vs db =
      Inr (True, table_upsert (synced_doc (file_id f) (file_name f) (md5Checksum f)) (file_id f) db)"
      "storage_error c (synced_doc (file_id f) (file_name f) (md5Checksum f)) = None \<and>
    (\<exists>local_path pages blocks upload_status.
       download_file c (file_id f) (file_name f) = Inr (Some local_path) \<and> local_path \<noteq> [] \<and>
       extract_document c local_path = Inr pages \<and>
       enrich_pages mx (snd (snd (parse_filename_metadata (file_name f))))
          (fst (snd (parse_filename_metadata (file_name f))))
          (fst (parse_filename_metadata (file_name f))) pages = Inr blocks \<and>
       write_text_file c (local_path @ ''_processed.txt'') (str_join [CHR 0x0A, CHR 0x0A] blocks) = None \<and>
       upload_file_to_store c (local_path @ ''_processed.txt'') vs = Inr upload_status \<and>
       upload_status \<noteq> [])"
    by blast
  then show ?thesis
  proof cases
    case 1
    then show ?thesis by (cases e) (simp_all add: process_single_file_def)
  next
    case 2
    then show ?thesis by (simp add: process_single_file_def)
  next
    case 3
    from 3(1) have "process_single_file c mx f vs db =
      (Inr True, table_upsert (synced_doc (file_id f) (file_name f) (md5Checksum f)) (file_id f) db)"
      by (simp add: process_single_file_def)
    with 3(2) show ?thesis by blast
  qed
qed

text \<open>Unless every stage succeeds, no record is written and the result is not True.\<close>

lemma process_single_file_unchanged:
  assumes "\<not> (\<exists>local_path pages blocks upload_status.
       download_file c (file_id f) (file_name f) = Inr (Some local_path) \<and> local_path \<noteq> [] \<and>
       extract_document c local_path = Inr pages \<and>
       enrich_pages mx (snd (snd (parse_filename_metadata (file_name f))))
          (fst (snd (parse_filename_metadata (file_name f))))
          (fst (parse_filename_metadata (file_name f))) pages = Inr blocks \<and>
       write_text_file c (local_path @ ''_processed.txt'') (str_join [CHR 0x0A, CHR 0x0A] blocks) = None \<and>
       upload_file_to_store c (local_path @ ''_processed.txt'') vs = Inr upload_status \<and>
       upload_status \<noteq> [])"
  shows "snd (process_single_file c mx f vs db) = db \<and>
         (fst (process_single_file c mx f vs db) = Inr False \<or>
          (\<exists>msg. fst (process_single_file c mx f vs db) = Inl (BaseException msg)))"
proof -
  from process_single_file_cases [of c mx f vs db] assms
  consider "process_single_file c mx f vs db = (Inr False, db)"
    | msg where "process_single_file c mx f vs db = (Inl (BaseException msg), db)"
    by blast
  then show ?thesis by cases simp_all
qed

lemma download_fails:
  assumes "(\<exists>e. download_file c (file_id f) (file_name f) = Inl e) \<or>
   download_file c (file_id f) (file_name f) = Inr None \<or>
   download_file c (file_id f) (file_name f) = Inr (Some [])"
  shows "snd (process_single_file c mx f vs db) = db \<and>
         (fst (process_single_file c mx f vs db) = Inr False \<or>
          (\<exists>msg. fst (process_single_file c mx f vs db) = Inl (BaseException msg)))"
proof (rule process_single_file_unchanged, rule notI, elim exE conjE)
  fix local_path pages blocks upload_status
  assume "download_file c (file_id f) (file_name f) = Inr (Some local_path)" "local_path \<noteq> []"
  with assms show False by auto
qed

lemma later_stage_fails:
  assumes d: "download_file c (file_id f) (file_name f) = Inr (Some lp)"
    and "(\<exists>e. extract_document c lp = Inl e) \<or>
         (\<exists>pages e. extract_document c lp = Inr pages \<and>
            enrich_pages mx (snd (snd (parse_filename_metadata (file_name f))))
              (fst (snd (parse_filename_metadata (file_name f))))
              (fst (parse_filename_metadata (file_name f))) pages = Inl e) \<or>
         (\<exists>pages blocks e. extract_document c lp = Inr pages \<and>
            enrich_pages mx (snd (snd (parse_filename_metadata (file_name f))))
              (fst (snd (parse_filename_metadata (file_name f))))
              (fst (parse_filename_metadata (file_name f))) pages = Inr blocks \<and>
            write_text_file c (lp @ ''_processed.txt'') (str_join [CHR 0x0A, CHR 0x0A] blocks) = Some e) \<or>
         (\<exists>e. upload_file_to_store c (lp @ ''_processed.txt'') vs = Inl e) \<or>
         upload_file_to_store c (lp @ ''_processed.txt'') vs = Inr []"
  shows "snd (process_single_file c mx f vs db) = db \<and>
         (fst (process_single_file c mx f vs db) = Inr False \<or>
          (\<exists>msg. fst (process_single_file c mx f vs db) = Inl (BaseException msg)))"
proof (rule process_single_file_unchanged, rule notI, elim exE conjE)
  fix local_path pages blocks upload_status
  assume a: "download_file c (file_id f) (file_name f) = Inr (Some local_path)"
    "extract_document c local_path = Inr pages"
    "enrich_pages mx (snd (snd (parse_filename_metadata (file_name f))))
          (fst (snd (parse_filename_metadata (file_name f))))
          (fst (parse_filename_metadata (file_name f))) pages = Inr blocks"
    "write_text_file c (local_path @ ''_processed.txt'') (str_join [CHR 0x0A, CHR 0x0A] blocks) = None"
    "upload_file_to_store c (local_path @ ''_processed.txt'') vs = Inr upload_status"
    "upload_status \<noteq> []"
  from a(1) d have "local_path = lp" by simp
  with a assms(2) show False by auto
qed

text \<open>An exception leaves the worker only when it is not derived from \<open>Exception\<close>.\<close>

lemma process_single_file_raises:
  "fst (process_single_file c mx f vs db) = Inl e \<longleftrightarrow>
     (\<exists>msg. e = BaseException msg \<and> process_single_file_try c mx f vs db = Inl e)"
  unfolding process_single_file_def
  by (auto split: sum.splits exn.splits prod.splits)


text \<open>
  Claim C2.  For every file, collaborators and table.  If the worker returns True, or
  the table after it differs from the one before, then the download gave a path,
  \<open>upload_file_to_store\<close> returned a true status for the processed file, the worker
  returned True and the table is the old one with the file's document upserted.  If
  the download raises or gives no path, or the extraction, the chunking and
  enrichment, the writing of the processed file or the upload raises, or the upload
  returns a status that is not true, the table is left unchanged, and the worker
  returns False unless the exception leaves it; an exception leaves the worker exactly
  when the \<open>try\<close> raised it and it is not derived from \<open>Exception\<close>.  Whenever the
  worker does not return True, the status of the file's id in the table is what it
  was, and the comparison selects the file exactly as before.
\<close>

theorem checksum_recorded_only_after_upload:
  "(fst (process_single_file c mx f vs db) = Inr True \<or> snd (process_single_file c mx f vs db) \<noteq> db \<longrightarrow>
      process_single_file c mx f vs db =
        (Inr True, table_upsert (synced_doc (file_id f) (file_name f) (md5Checksum f)) (file_id f) db) \<and>
      (\<exists>local_path upload_status.
         download_file c (file_id f) (file_name f) = Inr (Some local_path) \<and>
         upload_file_to_store c (local_path @ ''_processed.txt'') vs = Inr upload_status \<and>
         upload_status \<noteq> [])) \<and>
   ((\<exists>e. download_file c (file_id f) (file_name f) = Inl e) \<or>
    download_file c (file_id f) (file_name f) = Inr None \<or>
    download_file c (file_id f) (file_name f) = Inr (Some []) \<longrightarrow>
      snd (process_single_file c mx f vs db) = db \<and>
      (fst (process_single_file c mx f vs db) = Inr False \<or>
       (\<exists>msg. fst (process_single_file c mx f vs db) = Inl (BaseException msg)))) \<and>
   (\<forall>lp. download_file c (file_id f) (file_name f) = Inr (Some lp) \<and>
      ((\<exists>e. extract_document c lp = Inl e) \<or>
       (\<exists>pages e. extract_document c lp = Inr pages \<and>
          enrich_pages mx (snd (snd (parse_filename_metadata (file_name f))))
            (fst (snd (parse_filename_metadata (file_name f))))
            (fst (parse_filename_metadata (file_name f))) pages = Inl e) \<or>
       (\<exists>pages blocks e. extract_document c lp = Inr pages \<and>
          enrich_pages mx (snd (snd (parse_filename_metadata (file_name f))))
            (fst (snd (parse_filename_metadata (file_name f))))
            (fst (parse_filename_metadata (file_name f))) pages = Inr blocks \<and>
          write_text_file c (lp @ ''_processed.txt'') (str_join [CHR 0x0A, CHR 0x0A] blocks) = Some e) \<or>
       (\<exists>e. upload_file_to_store c (lp @ ''_processed.txt'') vs = Inl e) \<or>
       upload_file_to_store c (lp @ ''_processed.txt'') vs = Inr []) \<longrightarrow>
      snd (process_single_file c mx f vs db) = db \<and>
      (fst (process_single_file c mx f vs db) = Inr False \<or>
       (\<exists>msg. fst (process_single_file c mx f vs db) = Inl (BaseException msg)))) \<and>
   (\<forall>e. fst (process_single_file c mx f vs db) = Inl e \<longleftrightarrow>
      (\<exists>msg. e = BaseException msg \<and> process_single_file_try c mx f vs db = Inl e)) \<and>
   (fst (process_single_file c mx f vs db) \<noteq> Inr True \<longrightarrow>
      check_file_status (snd (process_single_file c mx f vs db)) (file_id f) =
      check_file_status db (file_id f) \<and>
      get_files_to_process (snd (process_single_file c mx f vs db)) [f] =
      get_files_to_process db [f])"
proof (intro conjI impI allI)
  assume ne: "fst (process_single_file c mx f vs db) = Inr True \<or> snd (process_single_file c mx f vs db) \<noteq> db"
  with process_single_file_cases [of c mx f vs db]
  show "process_single_file c mx f vs db =
        (Inr True, table_upsert (synced_doc (file_id f) (file_name f) (md5Checksum f)) (file_id f) db)"
    by auto
  from ne process_single_file_cases [of c mx f vs db]
  show "\<exists>local_path upload_status.
         download_file c (file_id f) (file_name f) = Inr (Some local_path) \<and>
         upload_file_to_store c (local_path @ ''_processed.txt'') vs = Inr upload_status \<and>
         upload_status \<noteq> []"
    by auto
next
  assume a: "(\<exists>e. download_file c (file_id f) (file_name f) = Inl e) \<or>
    download_file c (file_id f) (file_name f) = Inr None \<or>
    download_file c (file_id f) (file_name f) = Inr (Some [])"
  from download_fails [OF a]
  show "snd (process_single_file c mx f vs db) = db"
    and "fst (process_single_file c mx f vs db) = Inr False \<or>
       (\<exists>msg. fst (process_single_file c mx f vs db) = Inl (BaseException msg))"
    by simp_all
next
  fix lp
  assume a: "download_file c (file_id f) (file_name f) = Inr (Some lp) \<and>
      ((\<exists>e. extract_document c lp = Inl e) \<or>
       (\<exists>pages e. extract_document c lp = Inr pages \<and>
          enrich_pages mx (snd (snd (parse_filename_metadata (file_name f))))
            (fst (snd (parse_filename_metadata (file_name f))))
            (fst (parse_filename_metadata (file_name f))) pages = Inl e) \<or>
       (\<exists>pages blocks e. extract_document c lp = Inr pages \<and>
          enrich_pages mx (snd (snd (parse_filename_metadata (file_name f))))
            (fst (snd (parse_filename_metadata (file_name f))))
            (fst (parse_filename_metadata (file_name f))) pages = Inr blocks \<and>
          write_text_file c (lp @ ''_processed.txt'') (str_join [CHR 0x0A, CHR 0x0A] blocks) = Some e) \<or>
       (\<exists>e. upload_file_to_store c (lp @ ''_processed.txt'') vs = Inl e) \<or>
       upload_file_to_store c (lp @ ''_processed.txt'') vs = Inr [])"
  from later_stage_fails [OF conjunct1 [OF a] conjunct2 [OF a]]
  show "snd (process_single_file c mx f vs db) = db"
    and "fst (process_single_file c mx f vs db) = Inr False \<or>
       (\<exists>msg. fst (process_single_file c mx f vs db) = Inl (BaseException msg))"
    by simp_all
next
  fix e
  show "fst (process_single_file c mx f vs db) = Inl e \<longleftrightarrow>
      (\<exists>msg. e = BaseException msg \<and> process_single_file_try c mx f vs db = Inl e)"
    by (rule process_single_file_raises)
next
  assume "fst (process_single_file c mx f vs db) \<noteq> Inr True"
  with process_single_file_cases [of c mx f vs db]
  have e: "snd (process_single_file c mx f vs db) = db" by auto
  show "check_file_status (snd (process_single_file c mx f vs db)) (file_id f) =
      check_file_status db (file_id f)" by (simp add: e)
  show "get_files_to_process (snd (process_single_file c mx f vs db)) [f] =
      get_files_to_process db [f]" by (simp add: e)
qed

theorem checksum_recorded_only_after_upload_witness:
  "process_single_file
     \<lparr>download_file = (\<lambda>fid fname. Inr (Some (''temp_data/'' @ fname))),
      extract_document = (\<lambda>p. Inr [\<lparr>page_index = 0, page_text = ''Hello.'', page_internal_page_number = ''1''\<rparr>]),
      write_text_file = (\<lambda>p t. None),
      upload_file_to_store = (\<lambda>p v. Inr []),
      storage_error = (\<lambda>d. None)\<rparr>
     3000 \<lparr>file_id = ''a'', file_name = ''a.pdf'', md5Checksum = Some ''x2''\<rparr> ''vs''
     [synced_doc ''a'' ''a.pdf'' (Some ''x1'')]
   = (Inr False, [synced_doc ''a'' ''a.pdf'' (Some ''x1'')]) \<and>
   process_single_file
     \<lparr>download_file = (\<lambda>fid fname. Inr (Some (''temp_data/'' @ fname))),
      extract_document = (\<lambda>p. Inl (Exception ''Missing file for extraction'')),
      write_text_file = (\<lambda>p t. None),
      upload_file_to_store = (\<lambda>p v. Inr ''upload_success''),
      storage_error = (\<lambda>d. None)\<rparr>
     3000 \<lparr>file_id = ''a'', file_name = ''a.pdf'', md5Checksum = Some ''x2''\<rparr> ''vs''
     [synced_doc ''a'' ''a.pdf'' (Some ''x1'')]
   = (Inr False, [synced_doc ''a'' ''a.pdf'' (Some ''x1'')]) \<and>
   process_single_file
     \<lparr>download_file = (\<lambda>fid fname. Inr (Some (''temp_data/'' @ fname))),
      extract_document = (\<lambda>p. Inr [\<lparr>page_index = 0, page_text = ''Hello.'', page_internal_page_number = ''1''\<rparr>]),
      write_text_file = (\<lambda>p t. None),
      upload_file_to_store = (\<lambda>p v. Inl (BaseException ''CancelledError'')),
      storage_error = (\<lambda>d. None)\<rparr>
     3000 \<lparr>file_id = ''a'', file_name = ''a.pdf'', md5Checksum = Some ''x2''\<rparr> ''vs''
     [synced_doc ''a'' ''a.pdf'' (Some ''x1'')]
   = (Inl (BaseException ''CancelledError''), [synced_doc ''a'' ''a.pdf'' (Some ''x1'')]) \<and>
   process_single_file
     \<lparr>download_file = (\<lambda>fid fname. Inr (Some (''temp_data/'' @ fname))),
      extract_document = (\<lambda>p. Inr [\<lparr>page_index = 0, page_text = ''Hello.'', page_internal_page_number = ''1''\<rparr>]),
      write_text_file = (\<lambda>p t. None),
      upload_file_to_store = (\<lambda>p v. Inr ''upload_success''),
      storage_error = (\<lambda>d. None)\<rparr>
     3000 \<lparr>file_id = ''a'', file_name = ''a.pdf'', md5Checksum = Some ''x2''\<rparr> ''vs''
     [synced_doc ''a'' ''a.pdf'' (Some ''x1'')]
   = (Inr True, [synced_doc ''a'' ''a.pdf'' (Some ''x2'')])"
proof -
  let ?f = "\<lparr>file_id = ''a'', file_name = ''a.pdf'', md5Checksum = Some ''x2''\<rparr>"
  let ?db = "[synced_doc ''a'' ''a.pdf'' (Some ''x1'')]"
  let ?c1 = "\<lparr>download_file = (\<lambda>fid fname. Inr (Some (''temp_data/'' @ fname))),
      extract_document = (\<lambda>p. Inr [\<lparr>page_index = 0, page_text = ''Hello.'', page_internal_page_number = ''1''\<rparr>]),
      write_text_file = (\<lambda>p t. None),
      upload_file_to_store = (\<lambda>p v. Inr []),
      storage_error = (\<lambda>d. None)\<rparr>"
  let ?c2 = "\<lparr>download_file = (\<lambda>fid fname. Inr (Some (''temp_data/'' @ fname))),
      extract_document = (\<lambda>p. Inl (Exception ''Missing file for extraction'')),
      write_text_file = (\<lambda>p t. None),
      upload_file_to_store = (\<lambda>p v. Inr ''upload_success''),
      storage_error = (\<lambda>d. None)\<rparr>"
  let ?c3 = "\<lparr>download_file = (\<lambda>fid fname. Inr (Some (''temp_data/'' @ fname))),
      extract_document = (\<lambda>p. Inr [\<lparr>page_index = 0, page_text = ''Hello.'', page_internal_page_number = ''1''\<rparr>]),
      write_text_file = (\<lambda>p t. None),
      upload_file_to_store = (\<lambda>p v. Inl (BaseException ''CancelledError'')),
      storage_error = (\<lambda>d. None)\<rparr>"
  have d1: "download_file ?c1 (file_id ?f) (file_name ?f) = Inr (Some ''temp_data/a.pdf'') \<and>
            upload_file_to_store ?c1 (''temp_data/a.pdf'' @ ''_processed.txt'') ''vs'' = Inr []"
    by simp
  have t1: "process_single_file_try ?c1 3000 ?f ''vs'' ?db = Inr (False, ?db)" by code_simp
  have d2: "download_file ?c2 (file_id ?f) (file_name ?f) = Inr (Some ''temp_data/a.pdf'') \<and>
            extract_document ?c2 ''temp_data/a.pdf'' = Inl (Exception ''Missing file for extraction'')"
    by simp
  have t2: "process_single_file_try ?c2 3000 ?f ''vs'' ?db = Inl (Exception ''Missing file for extraction'')"
    by code_simp
  have d3: "download_file ?c3 (file_id ?f) (file_name ?f) = Inr (Some ''temp_data/a.pdf'') \<and>
            upload_file_to_store ?c3 (''temp_data/a.pdf'' @ ''_processed.txt'') ''vs'' =
              Inl (BaseException ''CancelledError'')"
    by simp
  have t3: "process_single_file_try ?c3 3000 ?f ''vs'' ?db = Inl (BaseException ''CancelledError'')"
    by code_simp
  note th1 = checksum_recorded_only_after_upload [of ?c1 3000 ?f "''vs''" ?db]
  note th2 = checksum_recorded_only_after_upload [of ?c2 3000 ?f "''vs''" ?db]
  note th3 = checksum_recorded_only_after_upload [of ?c3 3000 ?f "''vs''" ?db]
  from d1 t1 th1 have "snd (process_single_file ?c1 3000 ?f ''vs'' ?db) = ?db \<and>
      fst (process_single_file ?c1 3000 ?f ''vs'' ?db) = Inr False"
    by (metis sum.distinct(1))
  then have r1: "process_single_file ?c1 3000 ?f ''vs'' ?db = (Inr False, ?db)"
    by (metis prod.collapse)
  from d2 t2 th2 have "snd (process_single_file ?c2 3000 ?f ''vs'' ?db) = ?db \<and>
      fst (process_single_file ?c2 3000 ?f ''vs'' ?db) = Inr False"
    by (metis sum.inject(1) exn.distinct(1))
  then have r2: "process_single_file ?c2 3000 ?f ''vs'' ?db = (Inr False, ?db)"
    by (metis prod.collapse)
  from d3 t3 th3 have "snd (process_single_file ?c3 3000 ?f ''vs'' ?db) = ?db \<and>
      fst (process_single_file ?c3 3000 ?f ''vs'' ?db) = Inl (BaseException ''CancelledError'')"
    by blast
  then have r3: "process_single_file ?c3 3000 ?f ''vs'' ?db = (Inl (BaseException ''CancelledError''), ?db)"
    by (metis prod.collapse)
  have r4: "process_single_file
     \<lparr>download_file = (\<lambda>fid fname. Inr (Some (''temp_data/'' @ fname))),
      extract_document = (\<lambda>p. Inr [\<lparr>page_index = 0, page_text = ''Hello.'', page_internal_page_number = ''1''\<rparr>]),
      write_text_file = (\<lambda>p t. None),
      upload_file_to_store = (\<lambda>p v. Inr ''upload_success''),
      storage_error = (\<lambda>d. None)\<rparr>
     3000 ?f ''vs'' ?db = (Inr True, [synced_doc ''a'' ''a.pdf'' (Some ''x2'')])"
    by code_simp
  from r1 r2 r3 r4 show ?thesis by (intro conjI)
qed


section \<open>The batch: properties\<close>










section \<open>Idempotence of the delta comparison\<close>

lemma gather_all_True:
  "gather c mx vs qs db = Inr (results, db') \<Longrightarrow> list_all (\<lambda>r. r) results \<Longrightarrow>
   db' = fold (\<lambda>f. table_upsert (synced_doc (file_id f) (file_name f) (md5Checksum f)) (file_id f)) qs db"
proof (induction qs arbitrary: db results)
  case Nil then show ?case by simp
next
  case (Cons q qs)
  from Cons.prems(1) obtain r db1 rs where p: "process_single_file c mx q vs db = (Inr r, db1)"
    and g: "gather c mx vs qs db1 = Inr (rs, db')" and eq: "results = r # rs"
    by (auto split: prod.splits sum.splits)
  with Cons.prems(2) have r: "r" and rs: "list_all (\<lambda>r. r) rs" by simp_all
  from p r process_single_file_cases [of c mx q vs db]
  have "db1 = table_upsert (synced_doc (file_id q) (file_name q) (md5Checksum q)) (file_id q) db"
    by auto
  moreover
  from Cons.IH [OF g rs] have "db' = fold (\<lambda>f. table_upsert (synced_doc (file_id f) (file_name f) (md5Checksum f)) (file_id f)) qs db1" .
  ultimately show ?case by simp
qed

lemma table_get_upsert_synced:
  "table_get (table_upsert (synced_doc (file_id q) (file_name q) (md5Checksum q)) (file_id q) t) fid =
     (if fid = file_id q then Some (synced_doc (file_id q) (file_name q) (md5Checksum q))
      else table_get t fid)"
  by (rule table_get_upsert) (simp add: synced_doc_def)

lemma table_get_fold_upsert_other:
  "\<forall>q\<in>set qs. file_id q \<noteq> fid \<Longrightarrow>
   table_get (fold (\<lambda>f. table_upsert (synced_doc (file_id f) (file_name f) (md5Checksum f)) (file_id f)) qs db) fid =
   table_get db fid"
proof (induction qs arbitrary: db)
  case Nil
  show ?case by simp
next
  case (Cons q qs)
  then have ne: "fid \<noteq> file_id q" and rest: "\<forall>q\<in>set qs. file_id q \<noteq> fid" by auto
  from ne have "table_get (table_upsert (synced_doc (file_id q) (file_name q) (md5Checksum q)) (file_id q) db) fid =
      table_get db fid" by (simp add: table_get_upsert_synced)
  with Cons.IH [OF rest] show ?case by simp
qed

lemma table_get_fold_upsert_some:
  "\<exists>q\<in>set qs. file_id q = fid \<Longrightarrow>
   \<exists>q\<in>set qs. file_id q = fid \<and>
     table_get (fold (\<lambda>f. table_upsert (synced_doc (file_id f) (file_name f) (md5Checksum f)) (file_id f)) qs db) fid =
     Some (synced_doc (file_id q) (file_name q) (md5Checksum q))"
proof (induction qs arbitrary: db)
  case Nil
  then show ?case by simp
next
  case (Cons q qs)
  show ?case
  proof (cases "\<exists>q'\<in>set qs. file_id q' = fid")
    case True
    from Cons.IH [OF True] show ?thesis by auto
  next
    case False
    with Cons.prems have q: "file_id q = fid" by auto
    from False have "\<forall>q'\<in>set qs. file_id q' \<noteq> fid" by simp
    from table_get_fold_upsert_other [OF this]
    have "table_get (fold (\<lambda>f. table_upsert (synced_doc (file_id f) (file_name f) (md5Checksum f)) (file_id f)) (q # qs) db) fid =
        table_get (table_upsert (synced_doc (file_id q) (file_name q) (md5Checksum q)) (file_id q) db) fid"
      by simp
    also have "\<dots> = Some (synced_doc (file_id q) (file_name q) (md5Checksum q))"
      unfolding q [symmetric] by (simp add: table_get_upsert_synced)
    finally show ?thesis using q by auto
  qed
qed

text \<open>
  Claim C6.  Let the listing give every id one checksum (entries with the same id carry
  the same \<open>md5Checksum\<close>).  If the files queued by the comparison are processed in
  any order and every worker returns True, then the comparison of the same listing
  against the resulting table yields the empty queue.  The witness is the scenario of
  the specification: listing \<open>[{id: a, checksum: x}]\<close> and an empty table give the
  queue \<open>[a]\<close>; after processing the table holds \<open>a \<mapsto> x\<close>; the second comparison is
  empty.
\<close>

theorem second_comparison_is_empty:
  assumes ids: "\<forall>f\<in>set files. \<forall>f'\<in>set files. file_id f = file_id f' \<longrightarrow> md5Checksum f = md5Checksum f'"
    and order: "set qs = set (get_files_to_process db files)"
    and run: "gather c mx vs qs db = Inr (results, db')"
    and ok: "list_all (\<lambda>r. r) results"
  shows "get_files_to_process db' files = []"
proof -
  let ?U = "\<lambda>f. table_upsert (synced_doc (file_id f) (file_name f) (md5Checksum f)) (file_id f)"
  let ?sel = "\<lambda>db f. (\<forall>d\<in>set db. doc_file_id d \<noteq> file_id f) \<or>
                 (\<exists>d. table_get db (file_id f) = Some d \<and> checksum d \<noteq> md5Checksum f)"
  have db': "db' = fold ?U qs db" using gather_all_True [OF run ok] .
  have q: "get_files_to_process db files = filter (?sel db) files"
    by (simp add: get_files_to_process_def files_to_process_loop_filter)
  have "\<not> ?sel db' f" if f: "f \<in> set files" for f
  proof (cases "\<exists>q\<in>set qs. file_id q = file_id f")
    case True
    from table_get_fold_upsert_some [OF True, of db] db'
    obtain q' where q': "q' \<in> set qs" "file_id q' = file_id f"
      and get: "table_get db' (file_id f) = Some (synced_doc (file_id q') (file_name q') (md5Checksum q'))"
      by auto
    from q'(1) order q have "q' \<in> set files" by simp
    with ids f q'(2) have "md5Checksum q' = md5Checksum f" by blast
    moreover from get have "\<not> (\<forall>d\<in>set db'. doc_file_id d \<noteq> file_id f)"
      by (auto dest: table_get_SomeD)
    ultimately show ?thesis using get by (simp add: synced_doc_def)
  next
    case False
    then have "f \<notin> set qs" by auto
    with order q f have ns: "\<not> ?sel db f" by simp
    then obtain d where d: "table_get db (file_id f) = Some d"
      using table_get_None [of db "file_id f"] by (cases "table_get db (file_id f)") auto
    with ns have c: "checksum d = md5Checksum f" by simp
    from False have "\<forall>q\<in>set qs. file_id q \<noteq> file_id f" by simp
    from table_get_fold_upsert_other [OF this, of db] db' d
    have get: "table_get db' (file_id f) = Some d" by simp
    then have "\<not> (\<forall>d\<in>set db'. doc_file_id d \<noteq> file_id f)"
      by (auto dest: table_get_SomeD)
    with get c show ?thesis by simp
  qed
  then have "filter (?sel db') files = []" by (simp add: filter_empty_conv)
  then show ?thesis
    by (simp add: get_files_to_process_def files_to_process_loop_filter)
qed

theorem second_comparison_is_empty_witness:
  "get_files_to_process [] [\<lparr>file_id = ''a'', file_name = ''a.pdf'', md5Checksum = Some ''x''\<rparr>] =
     [\<lparr>file_id = ''a'', file_name = ''a.pdf'', md5Checksum = Some ''x''\<rparr>] \<and>
   gather
     \<lparr>download_file = (\<lambda>fid fname. Inr (Some (''temp_data/'' @ fname))),
      extract_document = (\<lambda>p. Inr [\<lparr>page_index = 0, page_text = ''Hello.'', page_internal_page_number = ''1''\<rparr>]),
      write_text_file = (\<lambda>p t. None),
      upload_file_to_store = (\<lambda>p v. Inr ''upload_success''),
      storage_error = (\<lambda>d. None)\<rparr>
     3000 ''vs'' [\<lparr>file_id = ''a'', file_name = ''a.pdf'', md5Checksum = Some ''x''\<rparr>] [] =
     Inr ([True], [\<lparr>doc_file_id = ''a'', doc_file_name = ''a.pdf'', checksum = Some ''x'', status = ''synced''\<rparr>]) \<and>
   get_files_to_process
     [\<lparr>doc_file_id = ''a'', doc_file_name = ''a.pdf'', checksum = Some ''x'', status = ''synced''\<rparr>]
     [\<lparr>file_id = ''a'', file_name = ''a.pdf'', md5Checksum = Some ''x''\<rparr>] = []"
proof -
  let ?fa = "\<lparr>file_id = ''a'', file_name = ''a.pdf'', md5Checksum = Some ''x''\<rparr>"
  let ?c = "\<lparr>download_file = (\<lambda>fid fname. Inr (Some (''temp_data/'' @ fname))),
      extract_document = (\<lambda>p. Inr [\<lparr>page_index = 0, page_text = ''Hello.'', page_internal_page_number = ''1''\<rparr>]),
      write_text_file = (\<lambda>p t. None),
      upload_file_to_store = (\<lambda>p v. Inr ''upload_success''),
      storage_error = (\<lambda>d. None)\<rparr>"
  let ?db' = "[\<lparr>doc_file_id = ''a'', doc_file_name = ''a.pdf'', checksum = Some ''x'', status = ''synced''\<rparr>]"
  have q: "get_files_to_process [] [?fa] = [?fa]" by code_simp
  have g: "gather ?c 3000 ''vs'' [?fa] [] = Inr ([True], ?db')" by code_simp
  have h1: "\<forall>f\<in>set [?fa]. \<forall>f'\<in>set [?fa]. file_id f = file_id f' \<longrightarrow> md5Checksum f = md5Checksum f'"
    by simp
  have h2: "set [?fa] = set (get_files_to_process [] [?fa])" by (simp only: q)
  have h3: "list_all (\<lambda>r. r) [True]" by simp
  have "get_files_to_process ?db' [?fa] = []"
    using h1 h2 g h3 by (rule second_comparison_is_empty)
  with q g show ?thesis by (intro conjI)
qed

section \<open>The admission gate: properties\<close>

lemma in_flight_update:
  "i < length xs \<Longrightarrow>
   length (filter in_section (xs[i := st])) + (if in_section (xs ! i) then 1 else 0) =
   length (filter in_section xs) + (if in_section st then 1 else 0)"
proof (induction xs arbitrary: i)
  case Nil then show ?case by simp
next
  case (Cons x xs) then show ?case by (cases i) auto
qed

lemma next_stage_in_section: "next_stage st = Some st' \<Longrightarrow> in_section st \<and> in_section st'"
  by (cases st) auto

lemma fire_invariant:
  assumes "fire e s = Some s'"
  shows "permits s' + in_flight s' = permits s + in_flight s"
proof (cases e)
  case (Acquire i)
  with assms have i: "i < length (stages s)" "stages s ! i = Discovered" "0 < permits s"
    and s': "s' = \<lparr>permits = permits s - 1, stages = (stages s)[i := Downloading]\<rparr>"
    by (auto split: if_splits)
  from in_flight_update [OF i(1), of Downloading] i(2)
  have "in_flight s' = in_flight s + 1" by (simp add: s' in_flight_def)
  with i(3) s' show ?thesis by simp
next
  case (Advance i)
  with assms obtain st where i: "i < length (stages s)" "next_stage (stages s ! i) = Some st"
    and s': "s' = \<lparr>permits = permits s, stages = (stages s)[i := st]\<rparr>"
    by (auto split: if_splits option.splits)
  from in_flight_update [OF i(1), of st] next_stage_in_section [OF i(2)]
  have "in_flight s' = in_flight s" by (simp add: s' in_flight_def)
  with s' show ?thesis by simp
next
  case (ReturnTrue i)
  with assms have i: "i < length (stages s)" "stages s ! i = Uploading"
    and s': "s' = \<lparr>permits = permits s + 1, stages = (stages s)[i := Recorded]\<rparr>"
    by (auto split: if_splits)
  from in_flight_update [OF i(1), of Recorded] i(2)
  have "in_flight s' + 1 = in_flight s" by (simp add: s' in_flight_def)
  with s' show ?thesis by simp
next
  case (Fail i)
  with assms have i: "i < length (stages s)" "in_section (stages s ! i)"
    and s': "s' = \<lparr>permits = permits s + 1, stages = (stages s)[i := Failed]\<rparr>"
    by (auto split: if_splits)
  from in_flight_update [OF i(1), of Failed] i(2)
  have "in_flight s' + 1 = in_flight s" by (simp add: s' in_flight_def)
  with s' show ?thesis by simp
qed

lemma run_schedule_invariant:
  "run_schedule es s = Some s' \<Longrightarrow> permits s' + in_flight s' = permits s + in_flight s"
proof (induction es arbitrary: s)
  case Nil then show ?case by simp
next
  case (Cons e es)
  then obtain s1 where f: "fire e s = Some s1" and r: "run_schedule es s1 = Some s'"
    by (auto split: option.splits)
  from Cons.IH [OF r] fire_invariant [OF f] show ?case by simp
qed

lemma batch_start_invariant: "permits (batch_start n) + in_flight (batch_start n) = 10"
  by (simp add: batch_start_def in_flight_def max_concurrent_tasks_def)

text \<open>
  Claim C9.  For every number of files and every schedule of the event loop that runs
  from the start of the batch, at most 10 tasks are inside \<open>async with semaphore\<close>;
  the value of the semaphore plus the number of tasks inside is 10; and while 10 tasks
  are inside, no further task can pass \<open>acquire\<close>.  The witness has 15 files: after
  ten tasks have entered, task 10 cannot enter until one of them has left.
\<close>

theorem at_most_ten_in_flight:
  assumes "run_schedule es (batch_start n) = Some s"
  shows "in_flight s \<le> 10 \<and> permits s + in_flight s = 10 \<and>
         (in_flight s = 10 \<longrightarrow> (\<forall>i. fire (Acquire i) s = None))"
proof -
  from run_schedule_invariant [OF assms] batch_start_invariant [of n]
  have inv: "permits s + in_flight s = 10" by simp
  then have "in_flight s = 10 \<Longrightarrow> permits s = 0" by simp
  then have "in_flight s = 10 \<longrightarrow> (\<forall>i. fire (Acquire i) s = None)" by simp
  with inv show ?thesis by simp
qed

theorem at_most_ten_in_flight_witness:
  "run_schedule (map Acquire [0 ..< 10] @ [Advance 3, Advance 3]) (batch_start 15) =
     Some \<lparr>permits = 0,
           stages = replicate 3 Downloading @ [Chunking] @ replicate 6 Downloading @
                    replicate 5 Discovered\<rparr> \<and>
   in_flight \<lparr>permits = 0,
           stages = replicate 3 Downloading @ [Chunking] @ replicate 6 Downloading @
                    replicate 5 Discovered\<rparr> = 10 \<and>
   fire (Acquire 10) \<lparr>permits = 0,
           stages = replicate 3 Downloading @ [Chunking] @ replicate 6 Downloading @
                    replicate 5 Discovered\<rparr> = None \<and>
   run_schedule (map Acquire [0 ..< 10] @ [Advance 3, Advance 3, Fail 3, Acquire 10]) (batch_start 15) =
     Some \<lparr>permits = 0,
           stages = replicate 3 Downloading @ [Failed] @ replicate 6 Downloading @ [Downloading] @
                    replicate 4 Discovered\<rparr>"
proof -
  let ?s = "\<lparr>permits = 0,
           stages = replicate 3 Downloading @ [Chunking] @ replicate 6 Downloading @
                    replicate 5 Discovered\<rparr>"
  have r: "run_schedule (map Acquire [0 ..< 10] @ [Advance 3, Advance 3]) (batch_start 15) = Some ?s"
    by code_simp
  have f: "in_flight ?s = 10" by code_simp
  from at_most_ten_in_flight [OF r] f have "fire (Acquire 10) ?s = None" by blast
  moreover have "run_schedule (map Acquire [0 ..< 10] @ [Advance 3, Advance 3, Fail 3, Acquire 10]) (batch_start 15) =
     Some \<lparr>permits = 0,
           stages = replicate 3 Downloading @ [Failed] @ replicate 6 Downloading @ [Downloading] @
                    replicate 4 Discovered\<rparr>" by code_simp
  ultimately show ?thesis using r f by (intro conjI)
qed

section \<open>Facts about \<open>strip\<close>\<close>

lemma dropWhile_all: "\<forall>x\<in>set xs. P x \<Longrightarrow> dropWhile P (xs @ ys) = dropWhile P ys"
  by (induction xs) auto

lemma dropWhile_rev_id: "xs \<noteq> [] \<Longrightarrow> \<not> P (last xs) \<Longrightarrow> dropWhile P (rev xs) = rev xs"
  by (cases xs rule: rev_cases) auto

lemma last_dropWhile: "dropWhile P xs \<noteq> [] \<Longrightarrow> last (dropWhile P xs) = last xs"
  by (induction xs) (auto split: if_splits)

lemma length_strip: "length (strip s) \<le> length s"
proof -
  have "length (dropWhile isspace (rev (dropWhile isspace s))) \<le> length (rev (dropWhile isspace s))"
    by (rule length_dropWhile_le)
  moreover have "length (dropWhile isspace s) \<le> length s" by (rule length_dropWhile_le)
  ultimately show ?thesis by (simp add: strip_def)
qed

lemma strip_append_space:
  assumes "\<forall>c\<in>set w. isspace c"
  shows "strip (a @ w) = strip a"
proof (cases "\<forall>c\<in>set a. isspace c")
  case True
  with assms have "\<forall>c\<in>set (a @ w). isspace c" by auto
  then have "strip (a @ w) = []" by (simp only: strip_eq_Nil_iff)
  moreover from True have "strip a = []" by (simp only: strip_eq_Nil_iff)
  ultimately show ?thesis by simp
next
  case False
  then obtain x where "x \<in> set a" "\<not> isspace x" by blast
  then have "dropWhile isspace (a @ w) = dropWhile isspace a @ w"
    by (rule dropWhile_append1)
  moreover have "dropWhile isspace (rev w @ r) = dropWhile isspace r" for r
    using assms by (intro dropWhile_all) simp
  ultimately show ?thesis by (simp add: strip_def)
qed

lemma strip_id:
  assumes "s \<noteq> []" "\<not> isspace (hd s)" "\<not> isspace (last s)"
  shows "strip s = s"
proof -
  from assms(1,2) have "dropWhile isspace s = s" by (cases s) auto
  moreover from assms(1,3) have "dropWhile isspace (rev s) = rev s" by (rule dropWhile_rev_id)
  ultimately show ?thesis by (simp add: strip_def)
qed

lemma strip_ends:
  assumes "strip s \<noteq> []"
  shows "\<not> isspace (hd (strip s))" and "\<not> isspace (last (strip s))"
proof -
  let ?d = "dropWhile isspace s"
  let ?e = "dropWhile isspace (rev ?d)"
  from assms have e: "?e \<noteq> []" by (simp add: strip_def)
  then have "\<not> isspace (hd ?e)" by (rule hd_dropWhile)
  with e show "\<not> isspace (last (strip s))" by (simp add: strip_def last_rev)
  have d: "?d \<noteq> []"
  proof
    assume "?d = []"
    then have "?e = []" by (simp only: rev.simps dropWhile.simps)
    with e show False by simp
  qed
  then have nd: "\<not> isspace (hd ?d)" by (rule hd_dropWhile)
  from e have "last ?e = last (rev ?d)" by (rule last_dropWhile)
  with d have "last ?e = hd ?d" by (simp add: last_rev)
  with e have "hd (strip s) = hd ?d" by (simp add: strip_def hd_rev)
  with nd show "\<not> isspace (hd (strip s))" by simp
qed

lemma strip_strip: "strip (strip s) = strip s"
proof (cases "strip s = []")
  case True
  have "strip [] = []" by (simp add: strip_def)
  with True show ?thesis by simp
next
  case False
  then show ?thesis by (intro strip_id strip_ends)
qed


section \<open>SemanticChunker: the size bound\<close>

lemma split_by_sentences_stripped: "sc \<in> set (split_by_sentences t) \<Longrightarrow> strip sc = sc"
  by (auto simp: split_by_sentences_def strip_strip)

lemma isspace_space: "isspace (CHR '' '')" and isspace_newline: "isspace (CHR 0x0A)"
  by (simp_all add: isspace_def)

lemma strip_sep:
  "strip (a @ '' '') = strip a" "strip (a @ [CHR 0x0A, CHR 0x0A]) = strip a"
  by (rule strip_append_space, simp add: isspace_def)+

text \<open>
  The invariant of both loops, for a set \<open>S\<close> that holds the sentences of the
  oversized paragraphs: every closed chunk is within the limit or a member of \<open>S\<close>,
  and so is the stripped open chunk unless it is empty.
\<close>

lemma pack_sentences_bound:
  assumes "\<forall>sc\<in>set scs. sc \<in> S \<and> strip sc = sc"
    and "\<forall>c\<in>set chunks. int (length c) \<le> mx \<or> c \<in> S"
    and "cur = [] \<or> int (length (strip cur)) \<le> mx \<or> strip cur \<in> S"
    and "pack_sentences mx scs (chunks, cur) = (chunks', cur')"
  shows "(\<forall>c\<in>set chunks'. int (length c) \<le> mx \<or> c \<in> S) \<and>
         (cur' = [] \<or> int (length (strip cur')) \<le> mx \<or> strip cur' \<in> S)"
  using assms
proof (induction scs arbitrary: chunks cur)
  case Nil
  then show ?case by simp
next
  case (Cons sc scs)
  from Cons.prems(1) have sc: "sc \<in> S" "strip sc = sc"
    and rest: "\<forall>sc\<in>set scs. sc \<in> S \<and> strip sc = sc" by simp_all
  show ?case
  proof (cases "int (length cur) + int (length sc) + 1 \<le> mx")
    case True
    have "length (strip (cur @ sc @ '' '')) \<le> length (cur @ sc @ '' '')" by (rule length_strip)
    with True have "int (length (strip (cur @ sc @ '' ''))) \<le> mx" by simp
    then have c: "cur @ sc @ '' '' = [] \<or> int (length (strip (cur @ sc @ '' ''))) \<le> mx \<or>
                  strip (cur @ sc @ '' '') \<in> S" by simp
    from Cons.prems(4) True
    have "pack_sentences mx scs (chunks, cur @ sc @ '' '') = (chunks', cur')" by simp
    from Cons.IH [OF rest Cons.prems(2) c this] show ?thesis .
  next
    case False
    let ?chunks = "if cur \<noteq> [] then chunks @ [strip cur] else chunks"
    from Cons.prems(2,3) have a: "\<forall>c\<in>set ?chunks. int (length c) \<le> mx \<or> c \<in> S" by auto
    have "strip (sc @ '' '') = sc" using strip_sep(1) [of sc] sc(2) by simp
    with sc(1) have c: "sc @ '' '' = [] \<or> int (length (strip (sc @ '' ''))) \<le> mx \<or>
                  strip (sc @ '' '') \<in> S" by simp
    from Cons.prems(4) False
    have "pack_sentences mx scs (?chunks, sc @ '' '') = (chunks', cur')" by simp
    from Cons.IH [OF rest a c this] show ?thesis .
  qed
qed

lemma pack_paragraphs_bound:
  assumes "\<forall>p\<in>set ps. mx < int (length (strip p)) \<longrightarrow> set (split_by_sentences (strip p)) \<subseteq> S"
    and "\<forall>c\<in>set chunks. int (length c) \<le> mx \<or> c \<in> S"
    and "cur = [] \<or> int (length (strip cur)) \<le> mx \<or> strip cur \<in> S"
    and "pack_paragraphs mx ps (chunks, cur) = (chunks', cur')"
  shows "(\<forall>c\<in>set chunks'. int (length c) \<le> mx \<or> c \<in> S) \<and>
         (cur' = [] \<or> int (length (strip cur')) \<le> mx \<or> strip cur' \<in> S)"
  using assms
proof (induction ps arbitrary: chunks cur)
  case Nil
  then show ?case by simp
next
  case (Cons p ps)
  from Cons.prems(1) have rest:
    "\<forall>p\<in>set ps. mx < int (length (strip p)) \<longrightarrow> set (split_by_sentences (strip p)) \<subseteq> S"
    by simp
  consider (empty) "strip p = []"
    | (big) "strip p \<noteq> []" "mx < int (length (strip p))"
    | (fits) "strip p \<noteq> []" "\<not> mx < int (length (strip p))"
        "int (length cur) + int (length (strip p)) + 2 \<le> mx"
    | (flush) "strip p \<noteq> []" "\<not> mx < int (length (strip p))"
        "\<not> int (length cur) + int (length (strip p)) + 2 \<le> mx"
    by blast
  then show ?case
  proof cases
    case empty
    with Cons.prems(4) have "pack_paragraphs mx ps (chunks, cur) = (chunks', cur')" by simp
    from Cons.IH [OF rest Cons.prems(2,3) this] show ?thesis .
  next
    case big
    obtain chunks1 cur1 where
      ps1: "pack_sentences mx (split_by_sentences (strip p)) (chunks, cur) = (chunks1, cur1)"
      by (cases "pack_sentences mx (split_by_sentences (strip p)) (chunks, cur)")
    from big(2) Cons.prems(1) have "set (split_by_sentences (strip p)) \<subseteq> S" by simp
    then have "\<forall>sc\<in>set (split_by_sentences (strip p)). sc \<in> S \<and> strip sc = sc"
      by (auto intro: split_by_sentences_stripped)
    from pack_sentences_bound [OF this Cons.prems(2,3) ps1]
    have a: "\<forall>c\<in>set chunks1. int (length c) \<le> mx \<or> c \<in> S"
      and c: "cur1 = [] \<or> int (length (strip cur1)) \<le> mx \<or> strip cur1 \<in> S" by simp_all
    from Cons.prems(4) big ps1
    have "pack_paragraphs mx ps (chunks1, cur1) = (chunks', cur')" by (simp add: Let_def)
    from Cons.IH [OF rest a c this] show ?thesis .
  next
    case fits
    let ?cur = "cur @ strip p @ [CHR 0x0A, CHR 0x0A]"
    have "length (strip ?cur) \<le> length ?cur" by (rule length_strip)
    with fits(3) have "int (length (strip ?cur)) \<le> mx" by simp
    then have c: "?cur = [] \<or> int (length (strip ?cur)) \<le> mx \<or> strip ?cur \<in> S" by simp
    from Cons.prems(4) fits
    have "pack_paragraphs mx ps (chunks, ?cur) = (chunks', cur')" by (simp add: Let_def)
    from Cons.IH [OF rest Cons.prems(2) c this] show ?thesis .
  next
    case flush
    let ?chunks = "if cur \<noteq> [] then chunks @ [strip cur] else chunks"
    let ?cur = "strip p @ [CHR 0x0A, CHR 0x0A]"
    from Cons.prems(2,3) have a: "\<forall>c\<in>set ?chunks. int (length c) \<le> mx \<or> c \<in> S" by auto
    have "strip ?cur = strip p" using strip_sep(2) [of "strip p"] by (simp add: strip_strip)
    with flush(2) have c: "?cur = [] \<or> int (length (strip ?cur)) \<le> mx \<or> strip ?cur \<in> S" by simp
    from Cons.prems(4) flush
    have "pack_paragraphs mx ps (?chunks, ?cur) = (chunks', cur')" by (simp add: Let_def)
    from Cons.IH [OF rest a c this] show ?thesis .
  qed
qed

lemma strip_Nil: "strip [] = []"
  by (simp add: strip_def)

lemma paragraphs_blank: "re_split paragraph_boundary [] = [[]]"
  by code_simp

lemma split_by_sentences_Nil: "split_by_sentences [] = []"
  by code_simp

lemma split_by_sentences_nonempty: "sc \<in> set (split_by_sentences t) \<Longrightarrow> sc \<noteq> []"
  by (auto simp: split_by_sentences_def)

text \<open>
  An oversized sentence that has been flushed, or is the open chunk, stays so: nothing
  is appended to an open chunk that is over the limit, and the next step flushes it.
\<close>

lemma pack_sentences_keeps:
  assumes "sc \<noteq> []" and "mx < int (length sc)"
    and "sc \<in> set chunks \<or> strip cur = sc"
    and "pack_sentences mx scs (chunks, cur) = (chunks', cur')"
  shows "sc \<in> set chunks' \<or> strip cur' = sc"
  using assms(3,4)
proof (induction scs arbitrary: chunks cur)
  case Nil
  then show ?case by simp
next
  case (Cons s scs)
  have big: "mx < int (length cur)" if "strip cur = sc"
  proof -
    have "length (strip cur) \<le> length cur" by (rule length_strip)
    with that assms(2) show ?thesis by simp
  qed
  show ?case
  proof (cases "int (length cur) + int (length s) + 1 \<le> mx")
    case True
    with big have "strip cur \<noteq> sc" by auto
    with Cons.prems(1) have a: "sc \<in> set chunks \<or> strip (cur @ s @ '' '') = sc" by simp
    from Cons.prems(2) True
    have "pack_sentences mx scs (chunks, cur @ s @ '' '') = (chunks', cur')" by simp
    from Cons.IH [OF a this] show ?thesis .
  next
    case False
    let ?chunks = "if cur \<noteq> [] then chunks @ [strip cur] else chunks"
    from Cons.prems(1) assms(1) have "sc \<in> set ?chunks" by (auto simp: strip_Nil)
    then have a: "sc \<in> set ?chunks \<or> strip (s @ '' '') = sc" by simp
    from Cons.prems(2) False
    have "pack_sentences mx scs (?chunks, s @ '' '') = (chunks', cur')" by simp
    from Cons.IH [OF a this] show ?thesis .
  qed
qed

lemma pack_sentences_emits:
  assumes "sc \<in> set scs" and "strip sc = sc" and "sc \<noteq> []" and "mx < int (length sc)"
    and "pack_sentences mx scs (chunks, cur) = (chunks', cur')"
  shows "sc \<in> set chunks' \<or> strip cur' = sc"
  using assms(1,5)
proof (induction scs arbitrary: chunks cur)
  case Nil
  then show ?case by simp
next
  case (Cons s scs)
  obtain chunks1 cur1 where step: "pack_sentences mx [s] (chunks, cur) = (chunks1, cur1)"
    by (cases "pack_sentences mx [s] (chunks, cur)")
  with Cons.prems(2) have rest: "pack_sentences mx scs (chunks1, cur1) = (chunks', cur')"
    by (auto split: if_splits)
  show ?case
  proof (cases "sc \<in> set scs")
    case True
    from Cons.IH [OF True rest] show ?thesis .
  next
    case False
    with Cons.prems(1) have s: "s = sc" by simp
    from assms(4) have "\<not> int (length cur) + int (length sc) + 1 \<le> mx" by simp
    with step s have "cur1 = sc @ '' ''" by simp
    then have "strip cur1 = sc" using strip_sep(1) [of sc] assms(2) by simp
    then have "sc \<in> set chunks1 \<or> strip cur1 = sc" by simp
    from pack_sentences_keeps [OF assms(3,4) this rest] show ?thesis .
  qed
qed

lemma pack_paragraphs_keeps:
  assumes "sc \<noteq> []" and "mx < int (length sc)"
    and "sc \<in> set chunks \<or> strip cur = sc"
    and "pack_paragraphs mx ps (chunks, cur) = (chunks', cur')"
  shows "sc \<in> set chunks' \<or> strip cur' = sc"
  using assms(3,4)
proof (induction ps arbitrary: chunks cur)
  case Nil
  then show ?case by simp
next
  case (Cons p ps)
  have over: "mx < int (length cur)" if "strip cur = sc"
  proof -
    have "length (strip cur) \<le> length cur" by (rule length_strip)
    with that assms(2) show ?thesis by simp
  qed
  consider (empty) "strip p = []"
    | (big) "strip p \<noteq> []" "mx < int (length (strip p))"
    | (fits) "strip p \<noteq> []" "\<not> mx < int (length (strip p))"
        "int (length cur) + int (length (strip p)) + 2 \<le> mx"
    | (flush) "strip p \<noteq> []" "\<not> mx < int (length (strip p))"
        "\<not> int (length cur) + int (length (strip p)) + 2 \<le> mx"
    by blast
  then show ?case
  proof cases
    case empty
    with Cons.prems(2) have "pack_paragraphs mx ps (chunks, cur) = (chunks', cur')" by simp
    from Cons.IH [OF Cons.prems(1) this] show ?thesis .
  next
    case big
    obtain chunks1 cur1 where
      ps1: "pack_sentences mx (split_by_sentences (strip p)) (chunks, cur) = (chunks1, cur1)"
      by (cases "pack_sentences mx (split_by_sentences (strip p)) (chunks, cur)")
    from pack_sentences_keeps [OF assms(1,2) Cons.prems(1) ps1]
    have a: "sc \<in> set chunks1 \<or> strip cur1 = sc" .
    from Cons.prems(2) big ps1
    have "pack_paragraphs mx ps (chunks1, cur1) = (chunks', cur')" by (simp add: Let_def)
    from Cons.IH [OF a this] show ?thesis .
  next
    case fits
    with over have "strip cur \<noteq> sc" by auto
    with Cons.prems(1)
    have a: "sc \<in> set chunks \<or> strip (cur @ strip p @ [CHR 0x0A, CHR 0x0A]) = sc" by simp
    from Cons.prems(2) fits
    have "pack_paragraphs mx ps (chunks, cur @ strip p @ [CHR 0x0A, CHR 0x0A]) = (chunks', cur')"
      by (simp add: Let_def)
    from Cons.IH [OF a this] show ?thesis .
  next
    case flush
    let ?chunks = "if cur \<noteq> [] then chunks @ [strip cur] else chunks"
    from Cons.prems(1) assms(1) have "sc \<in> set ?chunks" by (auto simp: strip_Nil)
    then have a: "sc \<in> set ?chunks \<or> strip (strip p @ [CHR 0x0A, CHR 0x0A]) = sc" by simp
    from Cons.prems(2) flush
    have "pack_paragraphs mx ps (?chunks, strip p @ [CHR 0x0A, CHR 0x0A]) = (chunks', cur')"
      by (simp add: Let_def)
    from Cons.IH [OF a this] show ?thesis .
  qed
qed

lemma pack_paragraphs_emits:
  assumes "p \<in> set ps" and "mx < int (length (strip p))"
    and "sc \<in> set (split_by_sentences (strip p))" and "mx < int (length sc)"
    and "pack_paragraphs mx ps (chunks, cur) = (chunks', cur')"
  shows "sc \<in> set chunks' \<or> strip cur' = sc"
  using assms(1,5)
proof (induction ps arbitrary: chunks cur)
  case Nil
  then show ?case by simp
next
  case (Cons q ps)
  obtain chunks1 cur1 where step: "pack_paragraphs mx [q] (chunks, cur) = (chunks1, cur1)"
    by (cases "pack_paragraphs mx [q] (chunks, cur)")
  with Cons.prems(2) have rest: "pack_paragraphs mx ps (chunks1, cur1) = (chunks', cur')"
    by (auto simp: Let_def split: if_splits)
  show ?case
  proof (cases "p \<in> set ps")
    case True
    from Cons.IH [OF True rest] show ?thesis .
  next
    case False
    with Cons.prems(1) have q: "q = p" by simp
    from assms(3) have ne: "strip p \<noteq> []" by (auto simp: split_by_sentences_Nil)
    from step q ne assms(2)
    have ps1: "pack_sentences mx (split_by_sentences (strip p)) (chunks, cur) = (chunks1, cur1)"
      by (simp add: Let_def)
    have s: "strip sc = sc" "sc \<noteq> []"
      using assms(3) by (rule split_by_sentences_stripped, rule split_by_sentences_nonempty)
    from pack_sentences_emits [OF assms(3) s assms(4) ps1]
    have "sc \<in> set chunks1 \<or> strip cur1 = sc" .
    from pack_paragraphs_keeps [OF s(2) assms(4) this rest] show ?thesis .
  qed
qed

lemma chunk_text_emits:
  assumes "p \<in> set (paragraphs txt)" and "mx < int (length (strip p))"
    and "sc \<in> set (split_by_sentences (strip p))" and "mx < int (length sc)"
  shows "sc \<in> set (chunk_text mx txt)"
proof (cases "blank txt")
  case True
  then have "strip txt = []" by (simp add: blank_iff strip_eq_Nil_iff)
  with assms(1) have "p = []" by (simp add: paragraphs_def paragraphs_blank)
  with assms(3) show ?thesis by (simp add: strip_Nil split_by_sentences_Nil)
next
  case False
  obtain chunks cur where pp: "pack_paragraphs mx (paragraphs txt) ([], []) = (chunks, cur)"
    by (cases "pack_paragraphs mx (paragraphs txt) ([], [])")
  from pack_paragraphs_emits [OF assms pp] have a: "sc \<in> set chunks \<or> strip cur = sc" .
  from assms(3) have "sc \<noteq> []" by (rule split_by_sentences_nonempty)
  with a have "sc \<in> set (if strip cur \<noteq> [] then chunks @ [strip cur] else chunks)" by auto
  with False pp show ?thesis by (simp add: chunk_text_def)
qed

section \<open>The matcher: where a match can end\<close>

lemma in_run_Many:
  "x \<in> set (run (Many m cls) (p, r, g)) \<longleftrightarrow>
     (\<exists>n. m \<le> n \<and> n \<le> length (takeWhile cls r) \<and> x = (p @ take n r, drop n r, g))"
proof -
  have "set (run (Many m cls) (p, r, g)) =
          (\<lambda>n. (p @ take n r, drop n r, g)) ` {m..length (takeWhile cls r)}"
    by (simp add: atLeastLessThanSuc_atLeastAtMost del: upt_Suc)
  then show ?thesis by auto
qed

lemma in_run_Lazy:
  "x \<in> set (run (Lazy cls) (p, r, g)) \<longleftrightarrow>
     (\<exists>n. n \<le> length (takeWhile cls r) \<and> x = (p @ take n r, drop n r, g))"
proof -
  have "set (run (Lazy cls) (p, r, g)) =
          (\<lambda>n. (p @ take n r, drop n r, g)) ` {0..length (takeWhile cls r)}"
    by (simp add: atLeastLessThanSuc_atLeastAtMost del: upt_Suc)
  then show ?thesis by auto
qed

lemma in_run_Lit:
  "x \<in> set (run (Lit c) (p, r, g)) \<longleftrightarrow> (\<exists>r'. r = c # r' \<and> x = (p @ [c], r', g))"
  by (cases r) auto

lemma in_run_Behind:
  "x \<in> set (run (Behind cls) (p, r, g)) \<longleftrightarrow> p \<noteq> [] \<and> cls (last p) \<and> x = (p, r, g)"
  by auto

lemma in_run_Ahead:
  "x \<in> set (run (Ahead cls) (p, r, g)) \<longleftrightarrow> (\<exists>c r'. r = c # r' \<and> cls c \<and> x = (p, r, g))"
  by (cases r) auto

lemma in_run_Seq:
  "x \<in> set (run (Seq a b) st) \<longleftrightarrow> (\<exists>y\<in>set (run a st). x \<in> set (run b y))"
  by auto

section \<open>SemanticChunker: content preservation\<close>

text \<open>Both boundaries of the chunker match whitespace only, and at least one character.\<close>

lemma take_takeWhile: "n \<le> length (takeWhile P xs) \<Longrightarrow> c \<in> set (take n xs) \<Longrightarrow> P c"
proof (induction xs arbitrary: n)
  case Nil then show ?case by simp
next
  case (Cons x xs) then show ?case by (cases n) (auto split: if_splits)
qed

lemma paragraph_boundary_consumes:
  assumes "(p', r', g') \<in> set (run paragraph_boundary (p, r, g))"
  shows "\<exists>w. r = w @ r' \<and> p' = p @ w \<and> w \<noteq> [] \<and> (\<forall>c\<in>set w. isspace c)"
proof -
  from assms obtain r1 n where r: "r = CHR 0x0A # r1" and n: "n \<le> length (takeWhile isspace r1)"
    and d: "drop n r1 = CHR 0x0A # r'" and p': "p' = p @ [CHR 0x0A] @ take n r1 @ [CHR 0x0A]"
    unfolding paragraph_boundary_def in_run_Seq
    by (auto simp: in_run_Lit in_run_Many simp del: run.simps)
  let ?w = "CHR 0x0A # take n r1 @ [CHR 0x0A]"
  have "r1 = take n r1 @ drop n r1" by simp
  with d r have "r = ?w @ r'" by (metis append_Cons append_Nil append_assoc)
  moreover have "\<forall>c\<in>set ?w. isspace c"
    using take_takeWhile [OF n] by (auto simp: isspace_def)
  ultimately show ?thesis using p' by (intro exI [of _ ?w]) simp
qed

lemma sentence_boundaries_consumes:
  assumes "(p', r', g') \<in> set (run sentence_boundaries (p, r, g))"
  shows "\<exists>w. r = w @ r' \<and> p' = p @ w \<and> w \<noteq> [] \<and> (\<forall>c\<in>set w. isspace c)"
proof -
  from assms obtain n where n: "1 \<le> n" "n \<le> length (takeWhile isspace r)"
    and d: "r' = drop n r" and p': "p' = p @ take n r"
    unfolding sentence_boundaries_def in_run_Seq
    by (auto simp: in_run_Many in_run_Behind in_run_Ahead simp del: run.simps)
  have "r = take n r @ r'" using d by simp
  moreover have "\<forall>c\<in>set (take n r). isspace c" using take_takeWhile [OF n(2)] by blast
  moreover from n have "take n r \<noteq> []" by (cases r) auto
  ultimately show ?thesis using p' by blast
qed


text \<open>
  Splitting, stripping and packing keep the characters that are not whitespace, in
  their order.
\<close>

lemma nonspace_strip: "filter (\<lambda>c. \<not> isspace c) (strip s) = filter (\<lambda>c. \<not> isspace c) s"
proof -
  have d: "filter (\<lambda>c. \<not> P c) (dropWhile P xs) = filter (\<lambda>c. \<not> P c) xs" for P and xs :: "'a list"
    by (induction xs) auto
  have "filter (\<lambda>c. \<not> isspace c) (strip s) =
        rev (filter (\<lambda>c. \<not> isspace c) (dropWhile isspace (rev (dropWhile isspace s))))"
    by (simp add: strip_def rev_filter)
  also have "\<dots> = rev (filter (\<lambda>c. \<not> isspace c) (rev (dropWhile isspace s)))"
    by (simp only: d)
  also have "\<dots> = filter (\<lambda>c. \<not> isspace c) (dropWhile isspace s)"
    by (simp add: rev_filter)
  also have "\<dots> = filter (\<lambda>c. \<not> isspace c) s" by (simp only: d)
  finally show ?thesis .
qed

lemma nonspace_all_space: "(\<forall>c\<in>set w. isspace c) \<Longrightarrow> filter (\<lambda>c. \<not> isspace c) w = []"
  by (induction w) auto

lemma split_scan_nonspace:
  assumes "\<And>p r g p' r' g'. (p', r', g') \<in> set (run pat (p, r, g)) \<Longrightarrow>
                 \<exists>w. r = w @ r' \<and> (\<forall>c\<in>set w. isspace c)"
  shows "filter (\<lambda>c. \<not> isspace c) (concat (split_scan pat p acc r)) =
         filter (\<lambda>c. \<not> isspace c) (acc @ r)"
  using assms
proof (induction pat p acc r rule: split_scan.induct)
  case (1 pat p acc r)
  note ws = "1.prems"
  show ?case
  proof (cases "run pat (p, r, \<lambda>_. None)")
    case Nil
    show ?thesis
    proof (cases r)
      case Nil': Nil
      with Nil show ?thesis by (subst split_scan.simps) simp
    next
      case (Cons c cs)
      have "filter (\<lambda>c. \<not> isspace c) (concat (split_scan pat (p @ [c]) (acc @ [c]) cs)) =
            filter (\<lambda>c. \<not> isspace c) ((acc @ [c]) @ cs)"
        by (rule 1(1) [OF Nil Cons]) (rule ws)
      with Nil Cons show ?thesis by (subst split_scan.simps) simp
    qed
  next
    case (Cons st sts)
    obtain p' r' g' where st: "st = (p', r', g')" by (cases st)
    have st1: "(p', (r', g')) = st" and st2: "(r', g') = (r', g')" by (simp_all add: st)
    show ?thesis
    proof (cases "length r' < length r")
      case True
      from Cons st have "(p', r', g') \<in> set (run pat (p, r, \<lambda>_. None))" by simp
      from ws [OF this] obtain w where w: "r = w @ r'" "\<forall>c\<in>set w. isspace c" by blast
      have "filter (\<lambda>c. \<not> isspace c) (concat (split_scan pat p' [] r')) =
            filter (\<lambda>c. \<not> isspace c) ([] @ r')"
        by (rule 1(2) [OF Cons st1 st2 True]) (rule ws)
      with Cons st True w show ?thesis
        by (subst split_scan.simps) (simp add: nonspace_all_space)
    next
      case False
      show ?thesis
      proof (cases r)
        case Nil
        with Cons st False show ?thesis by (subst split_scan.simps) simp
      next
        case Cons': (Cons c cs)
        have "filter (\<lambda>c. \<not> isspace c) (concat (split_scan pat (p @ [c]) (acc @ [c]) cs)) =
              filter (\<lambda>c. \<not> isspace c) ((acc @ [c]) @ cs)"
          by (rule 1(3) [OF Cons st1 st2 False Cons']) (rule ws)
        with Cons st False Cons' show ?thesis by (subst split_scan.simps) simp
      qed
    qed
  qed
qed


lemma nonspace_concat_strip:
  "filter (\<lambda>c. \<not> isspace c) (concat (map strip (filter (\<lambda>s. strip s \<noteq> []) xs))) =
   filter (\<lambda>c. \<not> isspace c) (concat xs)"
proof (induction xs)
  case Nil
  show ?case by simp
next
  case (Cons x xs)
  show ?case
  proof (cases "strip x = []")
    case True
    then have "filter (\<lambda>c. \<not> isspace c) x = []"
      by (simp add: strip_eq_Nil_iff nonspace_all_space)
    with True Cons show ?thesis by simp
  next
    case False
    with Cons show ?thesis by (simp add: nonspace_strip)
  qed
qed

lemma nonspace_re_split:
  assumes "\<And>p r g p' r' g'. (p', r', g') \<in> set (run pat (p, r, g)) \<Longrightarrow>
                 \<exists>w. r = w @ r' \<and> (\<forall>c\<in>set w. isspace c)"
  shows "filter (\<lambda>c. \<not> isspace c) (concat (re_split pat s)) = filter (\<lambda>c. \<not> isspace c) s"
  unfolding re_split_def using split_scan_nonspace [of pat "[]" "[]" s, OF assms] by simp

lemma nonspace_paragraphs:
  "filter (\<lambda>c. \<not> isspace c) (concat (paragraphs txt)) = filter (\<lambda>c. \<not> isspace c) txt"
proof -
  have "filter (\<lambda>c. \<not> isspace c) (concat (paragraphs txt)) =
        filter (\<lambda>c. \<not> isspace c) (strip txt)"
    unfolding paragraphs_def
    using paragraph_boundary_consumes by (intro nonspace_re_split) blast
  then show ?thesis by (simp add: nonspace_strip)
qed

lemma nonspace_split_by_sentences:
  "filter (\<lambda>c. \<not> isspace c) (concat (split_by_sentences t)) = filter (\<lambda>c. \<not> isspace c) t"
proof -
  have "filter (\<lambda>c. \<not> isspace c) (concat (re_split sentence_boundaries t)) =
        filter (\<lambda>c. \<not> isspace c) t"
    using sentence_boundaries_consumes by (intro nonspace_re_split) blast
  then show ?thesis by (simp add: split_by_sentences_def nonspace_concat_strip)
qed

lemma pack_sentences_nonspace:
  "pack_sentences mx scs (chunks, cur) = (chunks', cur') \<Longrightarrow>
   filter (\<lambda>c. \<not> isspace c) (concat chunks' @ cur') =
   filter (\<lambda>c. \<not> isspace c) (concat chunks @ cur @ concat scs)"
proof (induction scs arbitrary: chunks cur)
  case Nil
  then show ?case by simp
next
  case (Cons sc scs)
  show ?case
  proof (cases "int (length cur) + int (length sc) + 1 \<le> mx")
    case True
    with Cons.prems have "pack_sentences mx scs (chunks, cur @ sc @ '' '') = (chunks', cur')"
      by simp
    from Cons.IH [OF this] show ?thesis by (simp add: isspace_space)
  next
    case False
    with Cons.prems have "pack_sentences mx scs
        (if cur \<noteq> [] then chunks @ [strip cur] else chunks, sc @ '' '') = (chunks', cur')"
      by simp
    from Cons.IH [OF this] show ?thesis by (simp add: isspace_space nonspace_strip)
  qed
qed

lemma pack_paragraphs_nonspace:
  "pack_paragraphs mx ps (chunks, cur) = (chunks', cur') \<Longrightarrow>
   filter (\<lambda>c. \<not> isspace c) (concat chunks' @ cur') =
   filter (\<lambda>c. \<not> isspace c) (concat chunks @ cur @ concat ps)"
proof (induction ps arbitrary: chunks cur)
  case Nil
  then show ?case by simp
next
  case (Cons p ps)
  have np: "filter (\<lambda>c. \<not> isspace c) (strip p) = filter (\<lambda>c. \<not> isspace c) p"
    by (rule nonspace_strip)
  consider (empty) "strip p = []"
    | (big) "strip p \<noteq> []" "mx < int (length (strip p))"
    | (fits) "strip p \<noteq> []" "\<not> mx < int (length (strip p))"
        "int (length cur) + int (length (strip p)) + 2 \<le> mx"
    | (flush) "strip p \<noteq> []" "\<not> mx < int (length (strip p))"
        "\<not> int (length cur) + int (length (strip p)) + 2 \<le> mx"
    by blast
  then show ?case
  proof cases
    case empty
    with Cons.prems have "pack_paragraphs mx ps (chunks, cur) = (chunks', cur')" by simp
    from Cons.IH [OF this] np empty show ?thesis by simp
  next
    case big
    obtain chunks1 cur1 where
      ps1: "pack_sentences mx (split_by_sentences (strip p)) (chunks, cur) = (chunks1, cur1)"
      by (cases "pack_sentences mx (split_by_sentences (strip p)) (chunks, cur)")
    from Cons.prems big ps1
    have "pack_paragraphs mx ps (chunks1, cur1) = (chunks', cur')" by (simp add: Let_def)
    from Cons.IH [OF this] pack_sentences_nonspace [OF ps1]
      nonspace_split_by_sentences [of "strip p"] np
    show ?thesis by simp
  next
    case fits
    with Cons.prems
    have "pack_paragraphs mx ps (chunks, cur @ strip p @ [CHR 0x0A, CHR 0x0A]) = (chunks', cur')"
      by (simp add: Let_def)
    from Cons.IH [OF this] np show ?thesis by (simp add: isspace_newline)
  next
    case flush
    with Cons.prems
    have "pack_paragraphs mx ps (if cur \<noteq> [] then chunks @ [strip cur] else chunks,
            strip p @ [CHR 0x0A, CHR 0x0A]) = (chunks', cur')"
      by (simp add: Let_def)
    from Cons.IH [OF this] np show ?thesis by (simp add: isspace_newline nonspace_strip)
  qed
qed

text \<open>
  The chunks, concatenated in order, hold the non-whitespace characters of a text that
  is not blank, in the order of the text.
\<close>

lemma chunk_text_nonspace:
  assumes "\<not> blank txt"
  shows "filter (\<lambda>c. \<not> isspace c) (concat (chunk_text mx txt)) = filter (\<lambda>c. \<not> isspace c) txt"
proof -
  obtain chunks cur where pp: "pack_paragraphs mx (paragraphs txt) ([], []) = (chunks, cur)"
    by (cases "pack_paragraphs mx (paragraphs txt) ([], [])")
  from pack_paragraphs_nonspace [OF pp] nonspace_paragraphs [of "txt"]
  have a: "filter (\<lambda>c. \<not> isspace c) (concat chunks @ cur) = filter (\<lambda>c. \<not> isspace c) txt"
    by simp
  have "filter (\<lambda>c. \<not> isspace c)
          (concat (if strip cur \<noteq> [] then chunks @ [strip cur] else chunks)) =
        filter (\<lambda>c. \<not> isspace c) (concat chunks @ cur)"
  proof (cases "strip cur = []")
    case True
    then have "filter (\<lambda>c. \<not> isspace c) cur = []"
      by (simp add: strip_eq_Nil_iff nonspace_all_space)
    with True show ?thesis by simp
  next
    case False
    then show ?thesis by (simp add: nonspace_strip)
  qed
  with a assms pp show ?thesis by (simp add: chunk_text_def)
qed

lemma chunk_text_blank:
  assumes "blank txt"
  shows "chunk_text mx txt = []" and "filter (\<lambda>c. \<not> isspace c) txt = []"
proof -
  from assms show "chunk_text mx txt = []" by (simp add: chunk_text_def)
  from assms have "\<forall>c\<in>set txt. isspace c" by (simp add: blank_iff)
  then show "filter (\<lambda>c. \<not> isspace c) txt = []" by (rule nonspace_all_space)
qed

text \<open>
  Claim C5.  For every text and every limit, the chunks of \<open>chunk_text\<close>, concatenated
  in order, hold exactly the non-whitespace characters of the text, in the order of
  the text; a text that is empty or whitespace only gives no chunk.
\<close>

theorem chunks_preserve_nonspace:
  "filter (\<lambda>c. \<not> isspace c) (concat (chunk_text mx txt)) = filter (\<lambda>c. \<not> isspace c) txt \<and>
   ((\<forall>c\<in>set txt. isspace c) \<longrightarrow> chunk_text mx txt = [])"
proof (cases "blank txt")
  case True
  from chunk_text_blank [OF True] show ?thesis by simp
next
  case False
  from False have "\<not> (\<forall>c\<in>set txt. isspace c)" by (simp add: blank_iff)
  with chunk_text_nonspace [OF False, of mx] show ?thesis by blast
qed

theorem chunks_preserve_nonspace_witness:
  "chunk_text 12 ''  One two. Three four.\<newline> \<newline>\<newline>Five.  '' = [''One two.'', ''Three four.'', ''Five.''] \<and>
   filter (\<lambda>c. \<not> isspace c) (concat (chunk_text 12 ''  One two. Three four.\<newline> \<newline>\<newline>Five.  '')) =
     ''Onetwo.Threefour.Five.'' \<and>
   list_all isspace [CHR '' '', CHR 0x0A, CHR '' ''] \<and>
   chunk_text 12 [CHR '' '', CHR 0x0A, CHR '' ''] = []"
proof -
  let ?t = "''  One two. Three four.\<newline> \<newline>\<newline>Five.  ''"
  have e: "chunk_text 12 ?t = [''One two.'', ''Three four.'', ''Five.'']" by code_simp
  have f: "filter (\<lambda>c. \<not> isspace c) ?t = ''Onetwo.Threefour.Five.''" by code_simp
  have w: "list_all isspace [CHR '' '', CHR 0x0A, CHR '' '']" by code_simp
  then have w': "\<forall>c\<in>set [CHR '' '', CHR 0x0A, CHR '' '']. isspace c" by (simp add: list_all_iff)
  from chunks_preserve_nonspace [of 12 ?t] f
  have "filter (\<lambda>c. \<not> isspace c) (concat (chunk_text 12 ?t)) = ''Onetwo.Threefour.Five.''"
    by simp
  moreover from chunks_preserve_nonspace [of 12 "[CHR '' '', CHR 0x0A, CHR '' '']"] w'
  have "chunk_text 12 [CHR '' '', CHR 0x0A, CHR '' ''] = []" by blast
  ultimately show ?thesis using e w by (intro conjI)
qed

section \<open>SemanticChunker: the size bound and the oversized sentence\<close>

text \<open>
  Claim C4.  For every text and every \<open>max_chunk_chars\<close> (positive or not): every
  chunk that \<open>chunk_text\<close> returns has at most \<open>max_chunk_chars\<close> characters, or it
  is, as a whole and unchanged, one of the stripped sentences into which
  \<open>_split_by_sentences\<close> splits a paragraph longer than the limit; every such sentence
  that is itself longer than the limit is one of the chunks returned, as it is; and
  nothing is cut off: the chunks, concatenated in order, hold exactly the
  non-whitespace characters of the text, in the order of the text.
\<close>

theorem chunk_size_bound:
  "(\<forall>c\<in>set (chunk_text mx txt).
     int (length c) \<le> mx \<or>
     (\<exists>p\<in>set (paragraphs txt).
        mx < int (length (strip p)) \<and> c \<in> set (split_by_sentences (strip p)))) \<and>
   (\<forall>p\<in>set (paragraphs txt). mx < int (length (strip p)) \<longrightarrow>
      (\<forall>sc\<in>set (split_by_sentences (strip p)). mx < int (length sc) \<longrightarrow>
         sc \<in> set (chunk_text mx txt))) \<and>
   filter (\<lambda>c. \<not> isspace c) (concat (chunk_text mx txt)) = filter (\<lambda>c. \<not> isspace c) txt"
proof (intro conjI)
  show "\<forall>c\<in>set (chunk_text mx txt).
     int (length c) \<le> mx \<or>
     (\<exists>p\<in>set (paragraphs txt).
        mx < int (length (strip p)) \<and> c \<in> set (split_by_sentences (strip p)))"
  proof (cases "blank txt")
    case True
    then show ?thesis by (simp add: chunk_text_def)
  next
    case False
    let ?S = "{c. \<exists>p\<in>set (paragraphs txt).
          mx < int (length (strip p)) \<and> c \<in> set (split_by_sentences (strip p))}"
    obtain chunks cur where pp: "pack_paragraphs mx (paragraphs txt) ([], []) = (chunks, cur)"
      by (cases "pack_paragraphs mx (paragraphs txt) ([], [])")
    have 1: "\<forall>p\<in>set (paragraphs txt).
         mx < int (length (strip p)) \<longrightarrow> set (split_by_sentences (strip p)) \<subseteq> ?S" by blast
    have 2: "\<forall>c\<in>set ([]::string list). int (length c) \<le> mx \<or> c \<in> ?S" by simp
    have 3: "([]::string) = [] \<or> int (length (strip [])) \<le> mx \<or> strip [] \<in> ?S" by simp
    from pack_paragraphs_bound [OF 1 2 3 pp]
    have a: "\<forall>c\<in>set chunks. int (length c) \<le> mx \<or> c \<in> ?S"
      and c: "cur = [] \<or> int (length (strip cur)) \<le> mx \<or> strip cur \<in> ?S" by simp_all
    from c strip_Nil have c': "strip cur \<noteq> [] \<Longrightarrow> int (length (strip cur)) \<le> mx \<or> strip cur \<in> ?S"
      by auto
    from False pp have "chunk_text mx txt = (if strip cur \<noteq> [] then chunks @ [strip cur] else chunks)"
      by (simp add: chunk_text_def)
    with a c' have "\<forall>c\<in>set (chunk_text mx txt). int (length c) \<le> mx \<or> c \<in> ?S"
      by auto
    then show ?thesis by simp
  qed
next
  show "\<forall>p\<in>set (paragraphs txt). mx < int (length (strip p)) \<longrightarrow>
      (\<forall>sc\<in>set (split_by_sentences (strip p)). mx < int (length sc) \<longrightarrow>
         sc \<in> set (chunk_text mx txt))"
    by (intro ballI impI) (rule chunk_text_emits)
next
  show "filter (\<lambda>c. \<not> isspace c) (concat (chunk_text mx txt)) = filter (\<lambda>c. \<not> isspace c) txt"
  proof (cases "blank txt")
    case True
    from chunk_text_blank [OF True] show ?thesis by simp
  next
    case False
    then show ?thesis by (rule chunk_text_nonspace)
  qed
qed

theorem chunk_size_bound_witness:
  "chunk_text 10 ''Para one.\<newline>\<newline>This sentence is long. Ok.'' =
     [''Para one.'', ''This sentence is long.'', ''Ok.''] \<and>
   \<not> int (length ''This sentence is long.'') \<le> 10 \<and>
   (\<exists>p\<in>set (paragraphs ''Para one.\<newline>\<newline>This sentence is long. Ok.'').
      10 < int (length (strip p)) \<and>
      ''This sentence is long.'' \<in> set (split_by_sentences (strip p))) \<and>
   paragraphs ''Para one.\<newline>\<newline>This sentence is long. Ok.'' =
     [''Para one.'', ''This sentence is long. Ok.''] \<and>
   split_by_sentences (strip ''This sentence is long. Ok.'') = [''This sentence is long.'', ''Ok.''] \<and>
   ''This sentence is long.'' \<in> set (chunk_text 10 ''Para one.\<newline>\<newline>This sentence is long. Ok.'') \<and>
   filter (\<lambda>c. \<not> isspace c) (concat (chunk_text 10 ''Para one.\<newline>\<newline>This sentence is long. Ok.'')) =
     ''Paraone.Thissentenceislong.Ok.''"
proof -
  let ?t = "''Para one.\<newline>\<newline>This sentence is long. Ok.''"
  let ?p = "''This sentence is long. Ok.''"
  have e: "chunk_text 10 ?t = [''Para one.'', ''This sentence is long.'', ''Ok.'']"
    by code_simp
  have pg: "paragraphs ?t = [''Para one.'', ?p]" by code_simp
  have ss: "split_by_sentences (strip ?p) = [''This sentence is long.'', ''Ok.'']" by code_simp
  have lp: "10 < int (length (strip ?p))" by code_simp
  have f: "filter (\<lambda>c. \<not> isspace c) ?t = ''Paraone.Thissentenceislong.Ok.''" by code_simp
  have l: "\<not> int (length ''This sentence is long.'') \<le> 10" by simp
  note th = chunk_size_bound [of 10 ?t]
  from e have "''This sentence is long.'' \<in> set (chunk_text 10 ?t)" by simp
  with th l
  have 1: "\<exists>p\<in>set (paragraphs ?t). 10 < int (length (strip p)) \<and>
      ''This sentence is long.'' \<in> set (split_by_sentences (strip p))" by blast
  from pg have "?p \<in> set (paragraphs ?t)" by simp
  moreover from ss have "''This sentence is long.'' \<in> set (split_by_sentences (strip ?p))" by simp
  moreover have "10 < int (length ''This sentence is long.'')" by simp
  ultimately have 2: "''This sentence is long.'' \<in> set (chunk_text 10 ?t)"
    using th lp by blast
  from th f have 3: "filter (\<lambda>c. \<not> isspace c) (concat (chunk_text 10 ?t)) =
      ''Paraone.Thissentenceislong.Ok.''" by simp
  from e l 1 pg ss 2 3 show ?thesis by (intro conjI)
qed

section \<open>The filename parser: properties\<close>

lemma in_run_Opt: "x \<in> set (run (Opt a) st) \<longleftrightarrow> x \<in> set (run a st) \<or> x = st"
  by auto

lemma in_run_Group:
  "x \<in> set (run (Group k a) (p, r, g)) \<longleftrightarrow>
     (\<exists>p' r' g'. (p', r', g') \<in> set (run a (p, r, g)) \<and>
        x = (p', r', g'(k := Some (drop (length p) p'))))"
  by (auto simp: image_iff) force

lemma in_run_Eol:
  "x \<in> set (run Eol (p, r, g)) \<longleftrightarrow> (r = [] \<or> r = [CHR 0x0A]) \<and> x = (p, r, g)"
  by auto

lemma not_isspace_hyphen: "\<not> isspace (CHR ''-'')"
  by (simp add: isspace_def)

lemma take_length_takeWhile:
  "take (length (takeWhile P xs)) xs = takeWhile P xs"
  "drop (length (takeWhile P xs)) xs = dropWhile P xs"
  by (rule takeWhile_eq_take [symmetric], rule dropWhile_eq_drop [symmetric])

lemma takeWhile_length_prefix:
  "n \<le> length (takeWhile P xs) \<Longrightarrow> n < length xs \<Longrightarrow> \<not> P (xs ! n) \<Longrightarrow> n = length (takeWhile P xs)"
  by (metis le_neq_implies_less nth_length_takeWhile takeWhile_nth nth_mem set_takeWhileD
      length_takeWhile_le order.strict_trans2)

text \<open>Where \<open>\s*-\s*\<close> can end.\<close>

lemma in_run_hyphen_sep:
  "x \<in> set (run hyphen_sep (p, r, g)) \<longleftrightarrow>
     (\<exists>r1 n. dropWhile isspace r = CHR ''-'' # r1 \<and> n \<le> length (takeWhile isspace r1) \<and>
        x = (p @ takeWhile isspace r @ CHR ''-'' # take n r1, drop n r1, g))"
  (is "?L \<longleftrightarrow> ?R")
proof
  assume ?L
  then obtain y1 y2 where y1: "y1 \<in> set (run (Many 0 isspace) (p, r, g))"
    and y2: "y2 \<in> set (run (Lit (CHR ''-'')) y1)"
    and x2: "x \<in> set (run (Many 0 isspace) y2)"
    unfolding hyphen_sep_def in_run_Seq by blast
  from y1 obtain n1 where n1: "n1 \<le> length (takeWhile isspace r)"
    and y1': "y1 = (p @ take n1 r, drop n1 r, g)"
    unfolding in_run_Many by blast
  from y2 obtain r1 where d: "drop n1 r = CHR ''-'' # r1"
    and y2': "y2 = ((p @ take n1 r) @ [CHR ''-''], r1, g)"
    unfolding y1' in_run_Lit by blast
  from x2 obtain n where n: "n \<le> length (takeWhile isspace r1)"
    and x: "x = (p @ take n1 r @ CHR ''-'' # take n r1, drop n r1, g)"
    unfolding y2' in_run_Many by auto
  from d have lt: "n1 < length r" by (metis drop_eq_Nil list.distinct(1) not_le)
  with d have "r ! n1 = CHR ''-''" by (metis Cons_nth_drop_Suc list.inject)
  with n1 lt have "n1 = length (takeWhile isspace r)"
    by (intro takeWhile_length_prefix) (simp_all add: not_isspace_hyphen)
  then have "take n1 r = takeWhile isspace r" "drop n1 r = dropWhile isspace r"
    by (simp_all only: take_length_takeWhile)
  with d n x show ?R by auto
next
  assume ?R
  then obtain r1 n where d: "dropWhile isspace r = CHR ''-'' # r1"
    and n: "n \<le> length (takeWhile isspace r1)"
    and x: "x = (p @ takeWhile isspace r @ CHR ''-'' # take n r1, drop n r1, g)" by blast
  let ?n1 = "length (takeWhile isspace r)"
  have "take ?n1 r = takeWhile isspace r" "drop ?n1 r = dropWhile isspace r"
    by (simp_all only: take_length_takeWhile)
  with d have y1: "(p @ takeWhile isspace r, CHR ''-'' # r1, g) \<in> set (run (Many 0 isspace) (p, r, g))"
    unfolding in_run_Many by (intro exI [of _ ?n1]) simp
  have y2: "((p @ takeWhile isspace r) @ [CHR ''-''], r1, g) \<in>
              set (run (Lit (CHR ''-'')) (p @ takeWhile isspace r, CHR ''-'' # r1, g))"
    unfolding in_run_Lit by simp
  from n x have "x \<in> set (run (Many 0 isspace) ((p @ takeWhile isspace r) @ [CHR ''-''], r1, g))"
    unfolding in_run_Many by (intro exI [of _ n]) simp
  with y1 y2 show ?L unfolding hyphen_sep_def in_run_Seq by blast
qed


lemma concat_map_rev_upt_last:
  assumes "\<And>n. n < k \<Longrightarrow> f n = []"
  shows "concat (map f (rev [0 ..< Suc k])) = f k"
proof -
  have "concat (map f (rev [0 ..< k])) = []" using assms by simp
  then show ?thesis by simp
qed

lemma run_hyphen_tail:
  "run (Seq (Lit (CHR ''-'')) (Many 0 isspace)) (q, d, g) =
     (case d of
        [] \<Rightarrow> []
      | c # r1 \<Rightarrow>
          if c = CHR ''-''
          then map (\<lambda>n. (q @ CHR ''-'' # take n r1, drop n r1, g))
                 (rev [0 ..< Suc (length (takeWhile isspace r1))])
          else [])"
  by (cases d) (simp_all del: upt_Suc)

text \<open>
  The states behind \<open>\s*-\s*\<close> in the order of the matcher: the first \<open>\s*\<close> has to take
  the whole run of whitespace, the second one takes all of its run first, then less.
\<close>

lemma run_hyphen_sep:
  "run hyphen_sep (p, r, g) =
     (case dropWhile isspace r of
        [] \<Rightarrow> []
      | c # r1 \<Rightarrow>
          if c = CHR ''-''
          then map (\<lambda>n. (p @ takeWhile isspace r @ CHR ''-'' # take n r1, drop n r1, g))
                 (rev [0 ..< Suc (length (takeWhile isspace r1))])
          else [])"
proof -
  let ?k = "length (takeWhile isspace r)"
  let ?f = "\<lambda>n. run (Seq (Lit (CHR ''-'')) (Many 0 isspace)) (p @ take n r, drop n r, g)"
  have small: "?f n = []" if "n < ?k" for n
  proof -
    from that have "n < length r" using length_takeWhile_le [of isspace r] by simp
    then have d: "drop n r = r ! n # drop (Suc n) r" by (simp add: Cons_nth_drop_Suc)
    from that have "isspace (r ! n)"
      using nth_mem [of n "takeWhile isspace r"] set_takeWhileD [of "r ! n" isspace r]
      by (simp add: takeWhile_nth)
    then have "r ! n \<noteq> CHR ''-''" using not_isspace_hyphen by auto
    with d show ?thesis by simp
  qed
  have "run hyphen_sep (p, r, g) = concat (map ?f (rev [0 ..< Suc ?k]))"
    by (simp add: hyphen_sep_def comp_def del: upt_Suc)
  also have "\<dots> = ?f ?k" using small by (rule concat_map_rev_upt_last)
  also have "\<dots> = run (Seq (Lit (CHR ''-'')) (Many 0 isspace))
                     (p @ takeWhile isspace r, dropWhile isspace r, g)"
    by (simp only: take_length_takeWhile)
  also have "\<dots> = (case dropWhile isspace r of
        [] \<Rightarrow> []
      | c # r1 \<Rightarrow>
          if c = CHR ''-''
          then map (\<lambda>n. (p @ takeWhile isspace r @ CHR ''-'' # take n r1, drop n r1, g))
                 (rev [0 ..< Suc (length (takeWhile isspace r1))])
          else [])"
    by (simp only: run_hyphen_tail append_assoc)
  finally show ?thesis .
qed

lemma in_run_title_part:
  "x \<in> set (run title_part (p, r, g)) \<longleftrightarrow>
     (\<exists>n. n \<le> length (takeWhile dot r) \<and> (drop n r = [] \<or> drop n r = [CHR 0x0A]) \<and>
        x = (p @ take n r, drop n r, g(3 := Some (take n r))))"
  (is "?L \<longleftrightarrow> ?R")
proof
  assume ?L
  then obtain y where y: "y \<in> set (run (Group 3 (Many 0 dot)) (p, r, g))"
    and x: "x \<in> set (run Eol y)"
    unfolding title_part_def in_run_Seq by blast
  from y obtain n where n: "n \<le> length (takeWhile dot r)"
    and y': "y = (p @ take n r, drop n r, g(3 := Some (take n r)))"
    unfolding in_run_Group in_run_Many by auto
  from x show ?R unfolding y' in_run_Eol using n by blast
next
  assume ?R
  then obtain n where n: "n \<le> length (takeWhile dot r)"
    and e: "drop n r = [] \<or> drop n r = [CHR 0x0A]"
    and x: "x = (p @ take n r, drop n r, g(3 := Some (take n r)))" by blast
  from n have "(p @ take n r, drop n r, g) \<in> set (run (Many 0 dot) (p, r, g))"
    unfolding in_run_Many by blast
  then have "(p @ take n r, drop n r, g(3 := Some (take n r))) \<in>
               set (run (Group 3 (Many 0 dot)) (p, r, g))"
    unfolding in_run_Group by force
  moreover from e x have "x \<in> set (run Eol (p @ take n r, drop n r, g(3 := Some (take n r))))"
    unfolding in_run_Eol by simp
  ultimately show ?L unfolding title_part_def in_run_Seq by blast
qed

lemma in_run_author_title:
  "x \<in> set (run (Seq author_part title_part) (p, r, g)) \<longleftrightarrow>
     x \<in> set (run title_part (p, r, g)) \<or>
     (\<exists>n1 r1 n2. n1 \<le> length (takeWhile dot r) \<and>
        dropWhile isspace (drop n1 r) = CHR ''-'' # r1 \<and>
        n2 \<le> length (takeWhile isspace r1) \<and>
        x \<in> set (run title_part
               ((p @ take n1 r) @ takeWhile isspace (drop n1 r) @ CHR ''-'' # take n2 r1,
                drop n2 r1, g(2 := Some (take n1 r)))))"
  (is "?L \<longleftrightarrow> ?T \<or> ?A")
proof
  assume ?L
  then obtain y where y: "y \<in> set (run author_part (p, r, g))"
    and x: "x \<in> set (run title_part y)"
    unfolding in_run_Seq by blast
  from y consider "y = (p, r, g)"
    | "y \<in> set (run (Seq (Group 2 (Lazy dot)) hyphen_sep) (p, r, g))"
    unfolding author_part_def in_run_Opt by blast
  then show "?T \<or> ?A"
  proof cases
    case 1
    with x show ?thesis by simp
  next
    case 2
    then obtain z where z: "z \<in> set (run (Group 2 (Lazy dot)) (p, r, g))"
      and yz: "y \<in> set (run hyphen_sep z)"
      unfolding in_run_Seq by blast
    from z obtain n1 where n1: "n1 \<le> length (takeWhile dot r)"
      and z': "z = (p @ take n1 r, drop n1 r, g(2 := Some (take n1 r)))"
      unfolding in_run_Group in_run_Lazy by auto
    from yz obtain r1 n2 where "dropWhile isspace (drop n1 r) = CHR ''-'' # r1"
      "n2 \<le> length (takeWhile isspace r1)"
      "y = ((p @ take n1 r) @ takeWhile isspace (drop n1 r) @ CHR ''-'' # take n2 r1,
                drop n2 r1, g(2 := Some (take n1 r)))"
      unfolding z' in_run_hyphen_sep by blast
    with n1 x have ?A by blast
    then show ?thesis ..
  qed
next
  assume "?T \<or> ?A"
  then show ?L
  proof
    assume ?T
    moreover have "(p, r, g) \<in> set (run author_part (p, r, g))"
      unfolding author_part_def in_run_Opt by simp
    ultimately show ?L unfolding in_run_Seq by blast
  next
    assume ?A
    then obtain n1 r1 n2 where n1: "n1 \<le> length (takeWhile dot r)"
      and d: "dropWhile isspace (drop n1 r) = CHR ''-'' # r1"
      and n2: "n2 \<le> length (takeWhile isspace r1)"
      and x: "x \<in> set (run title_part
               ((p @ take n1 r) @ takeWhile isspace (drop n1 r) @ CHR ''-'' # take n2 r1,
                drop n2 r1, g(2 := Some (take n1 r))))" by blast
    from n1 have "(p @ take n1 r, drop n1 r, g) \<in> set (run (Lazy dot) (p, r, g))"
      unfolding in_run_Lazy by blast
    then have z: "(p @ take n1 r, drop n1 r, g(2 := Some (take n1 r))) \<in>
                 set (run (Group 2 (Lazy dot)) (p, r, g))"
      unfolding in_run_Group by force
    from d n2 have "((p @ take n1 r) @ takeWhile isspace (drop n1 r) @ CHR ''-'' # take n2 r1,
                drop n2 r1, g(2 := Some (take n1 r))) \<in>
           set (run hyphen_sep (p @ take n1 r, drop n1 r, g(2 := Some (take n1 r))))"
      unfolding in_run_hyphen_sep by blast
    with z have "((p @ take n1 r) @ takeWhile isspace (drop n1 r) @ CHR ''-'' # take n2 r1,
                drop n2 r1, g(2 := Some (take n1 r))) \<in> set (run author_part (p, r, g))"
      unfolding author_part_def in_run_Opt in_run_Seq by blast
    with x show ?L unfolding in_run_Seq by blast
  qed
qed


lemma title_part_matches:
  "run title_part (p, r, g) \<noteq> [] \<longleftrightarrow>
     (\<exists>n. n \<le> length (takeWhile dot r) \<and> (drop n r = [] \<or> drop n r = [CHR 0x0A]))"
proof -
  have "run title_part (p, r, g) \<noteq> [] \<longleftrightarrow> (\<exists>x. x \<in> set (run title_part (p, r, g)))"
    by (cases "run title_part (p, r, g)") auto
  then show ?thesis unfolding in_run_title_part by blast
qed

lemma title_part_step:
  assumes "run title_part (p, c # r, g) \<noteq> []"
  shows "run title_part (p', r, g') \<noteq> []"
proof -
  from assms obtain n where n: "n \<le> length (takeWhile dot (c # r))"
    and e: "drop n (c # r) = [] \<or> drop n (c # r) = [CHR 0x0A]"
    unfolding title_part_matches by blast
  show ?thesis
  proof (cases n)
    case 0
    with e have "r = []" by simp
    then show ?thesis unfolding title_part_matches by simp
  next
    case (Suc m)
    with n have "m \<le> length (takeWhile dot r)" by (simp split: if_splits)
    moreover from Suc e have "drop m r = [] \<or> drop m r = [CHR 0x0A]" by simp
    ultimately show ?thesis unfolding title_part_matches by blast
  qed
qed

lemma author_title_matches:
  "run (Seq author_part title_part) (p, r, g) \<noteq> [] \<longleftrightarrow>
     run title_part (p, r, g) \<noteq> [] \<or>
     (\<exists>n1 r1 n2. n1 \<le> length (takeWhile dot r) \<and>
        dropWhile isspace (drop n1 r) = CHR ''-'' # r1 \<and>
        n2 \<le> length (takeWhile isspace r1) \<and>
        run title_part (p, drop n2 r1, g) \<noteq> [])"
  (is "?L \<longleftrightarrow> ?T \<or> ?A")
proof -
  have t: "(\<exists>x. x \<in> set (run title_part (q, s, h))) \<longleftrightarrow> run title_part (p, s, g) \<noteq> []" for q s h
  proof -
    have "(\<exists>x. x \<in> set (run title_part (q, s, h))) \<longleftrightarrow> run title_part (q, s, h) \<noteq> []"
      by (cases "run title_part (q, s, h)") auto
    then show ?thesis unfolding title_part_matches .
  qed
  have "?L \<longleftrightarrow> (\<exists>x. x \<in> set (run (Seq author_part title_part) (p, r, g)))"
    by (cases "run (Seq author_part title_part) (p, r, g)") auto
  also have "\<dots> \<longleftrightarrow> (\<exists>x. x \<in> set (run title_part (p, r, g))) \<or>
     (\<exists>n1 r1 n2. n1 \<le> length (takeWhile dot r) \<and>
        dropWhile isspace (drop n1 r) = CHR ''-'' # r1 \<and>
        n2 \<le> length (takeWhile isspace r1) \<and>
        (\<exists>x. x \<in> set (run title_part
               ((p @ take n1 r) @ takeWhile isspace (drop n1 r) @ CHR ''-'' # take n2 r1,
                drop n2 r1, g(2 := Some (take n1 r))))))"
    unfolding in_run_author_title by blast
  also have "\<dots> \<longleftrightarrow> ?T \<or> ?A" unfolding t ..
  finally show ?thesis .
qed

lemma author_title_step:
  assumes c: "isspace c" and m: "run (Seq author_part title_part) (p, c # r, g) \<noteq> []"
  shows "run (Seq author_part title_part) (p', r, g') \<noteq> []"
proof -
  from m consider (T) "run title_part (p, c # r, g) \<noteq> []"
    | (A) n1 r1 n2 where "n1 \<le> length (takeWhile dot (c # r))"
        "dropWhile isspace (drop n1 (c # r)) = CHR ''-'' # r1"
        "n2 \<le> length (takeWhile isspace r1)"
        "run title_part (p, drop n2 r1, g) \<noteq> []"
    unfolding author_title_matches by blast
  then show ?thesis
  proof cases
    case T
    then have "run title_part (p', r, g') \<noteq> []" by (rule title_part_step)
    then show ?thesis unfolding author_title_matches by blast
  next
    case A
    from A(4) have t: "run title_part (p', drop n2 r1, g') \<noteq> []"
      unfolding title_part_matches .
    show ?thesis
    proof (cases n1)
      case 0
      with A(2) c have "dropWhile isspace (drop 0 r) = CHR ''-'' # r1" by simp
      moreover have "0 \<le> length (takeWhile dot r)" by simp
      ultimately show ?thesis using A(3) t unfolding author_title_matches by blast
    next
      case (Suc k)
      with A(1) have "k \<le> length (takeWhile dot r)" by (simp split: if_splits)
      moreover from Suc A(2) have "dropWhile isspace (drop k r) = CHR ''-'' # r1" by simp
      ultimately show ?thesis using A(3) t unfolding author_title_matches by blast
    qed
  qed
qed

lemma author_title_drop:
  assumes "k \<le> length (takeWhile isspace r1)"
    and "n \<le> k"
    and "run (Seq author_part title_part) (p, drop n r1, g) \<noteq> []"
  shows "run (Seq author_part title_part) (p', drop k r1, g') \<noteq> []"
  using assms(2,3)
proof (induction "k - n" arbitrary: n p g)
  case 0
  then have "n = k" by simp
  with "0.prems"(2) show ?case unfolding author_title_matches title_part_matches by simp
next
  case (Suc d)
  then have lt: "n < k" by simp
  with assms(1) have nl: "n < length (takeWhile isspace r1)" by simp
  then have "n < length r1" using length_takeWhile_le [of isspace r1] by simp
  then have dr: "drop n r1 = r1 ! n # drop (Suc n) r1" by (simp add: Cons_nth_drop_Suc)
  from nl have "isspace (r1 ! n)"
    using nth_mem [of n "takeWhile isspace r1"] set_takeWhileD [of "r1 ! n" isspace r1]
    by (simp add: takeWhile_nth)
  with Suc.prems(2) dr
  have "run (Seq author_part title_part) (p, drop (Suc n) r1, g) \<noteq> []"
    using author_title_step [of "r1 ! n" p "drop (Suc n) r1" g p g] by simp
  moreover from Suc.hyps(2) have "d = k - Suc n" by simp
  moreover from lt have "Suc n \<le> k" by simp
  ultimately show ?case using Suc.hyps(1) by blast
qed


text \<open>What the author and title parts leave behind, from any state.\<close>

lemma author_title_outcome:
  assumes "(p', r', g') \<in> set (run (Seq author_part title_part) (p, r, g))"
  shows "g' 1 = g 1" and "p' @ r' = p @ r" and "r' = [] \<or> r' = [CHR 0x0A]"
    and "\<exists>t q. g' 3 = Some t \<and> p' = q @ t"
    and "(g' 2 = g 2 \<and> g' 3 = Some (drop (length p) p')) \<or>
         (\<exists>n. g' 2 = Some (take n r) \<and> CHR ''-'' \<in> set r)"
proof -
  have title: "g' 1 = h 1 \<and> p' @ r' = q @ s \<and> (r' = [] \<or> r' = [CHR 0x0A]) \<and>
        (\<exists>t q. g' 3 = Some t \<and> p' = q @ t) \<and> g' 2 = h 2 \<and> g' 3 = Some (drop (length q) p')"
    if "(p', r', g') \<in> set (run title_part (q, s, h))" for q s h
  proof -
    from that obtain n where "drop n s = [] \<or> drop n s = [CHR 0x0A]"
      and x: "(p', r', g') = (q @ take n s, drop n s, h(3 := Some (take n s)))"
      unfolding in_run_title_part by blast
    then show ?thesis by auto
  qed
  from assms consider (T) "(p', r', g') \<in> set (run title_part (p, r, g))"
    | (A) n1 r1 n2 where "dropWhile isspace (drop n1 r) = CHR ''-'' # r1"
        "(p', r', g') \<in> set (run title_part
               ((p @ take n1 r) @ takeWhile isspace (drop n1 r) @ CHR ''-'' # take n2 r1,
                drop n2 r1, g(2 := Some (take n1 r))))"
    unfolding in_run_author_title by blast
  then have "g' 1 = g 1 \<and> p' @ r' = p @ r \<and> (r' = [] \<or> r' = [CHR 0x0A]) \<and>
        (\<exists>t q. g' 3 = Some t \<and> p' = q @ t) \<and>
        ((g' 2 = g 2 \<and> g' 3 = Some (drop (length p) p')) \<or>
         (\<exists>n. g' 2 = Some (take n r) \<and> CHR ''-'' \<in> set r))"
  proof cases
    case T
    from title [OF T] show ?thesis by blast
  next
    case A
    have "takeWhile isspace (drop n1 r) @ dropWhile isspace (drop n1 r) = drop n1 r"
      by (rule takeWhile_dropWhile_id)
    with A(1) have "takeWhile isspace (drop n1 r) @ CHR ''-'' # take n2 r1 @ drop n2 r1 = drop n1 r"
      by simp
    then have "((p @ take n1 r) @ takeWhile isspace (drop n1 r) @ CHR ''-'' # take n2 r1) @ drop n2 r1
               = p @ take n1 r @ drop n1 r" by simp
    then have pr: "((p @ take n1 r) @ takeWhile isspace (drop n1 r) @ CHR ''-'' # take n2 r1) @ drop n2 r1
               = p @ r" by simp
    have "CHR ''-'' \<in> set (dropWhile isspace (drop n1 r))" unfolding A(1) by simp
    then have "CHR ''-'' \<in> set (drop n1 r)" by (rule set_dropWhileD)
    then have "CHR ''-'' \<in> set r" by (rule in_set_dropD)
    then have h: "\<exists>n. g' 2 = Some (take n r) \<and> CHR ''-'' \<in> set r"
      using title [OF A(2)] by auto
    from title [OF A(2)] have "g' 1 = g 1" by simp
    moreover from title [OF A(2)] pr have "p' @ r' = p @ r" by (elim conjE) (simp only:)
    moreover from title [OF A(2)] have "r' = [] \<or> r' = [CHR 0x0A]"
      "\<exists>t q. g' 3 = Some t \<and> p' = q @ t" by blast+
    ultimately show ?thesis using h by blast
  qed
  then show "g' 1 = g 1" and "p' @ r' = p @ r" and "r' = [] \<or> r' = [CHR 0x0A]"
    and "\<exists>t q. g' 3 = Some t \<and> p' = q @ t"
    and "(g' 2 = g 2 \<and> g' 3 = Some (drop (length p) p')) \<or>
         (\<exists>n. g' 2 = Some (take n r) \<and> CHR ''-'' \<in> set r)" by blast+
qed

lemma title_part_newline_free:
  assumes "CHR 0x0A \<notin> set r"
  shows "run title_part (p, r, g) \<noteq> []"
proof -
  from assms have "\<forall>x\<in>set r. dot x" by (auto simp: dot_def)
  then have "takeWhile dot r = r" by simp
  then have "length (takeWhile dot r) = length r" by (rule arg_cong)
  then have "length r \<le> length (takeWhile dot r)" by (rule eq_imp_le [OF sym])
  moreover have "drop (length r) r = []" by simp
  ultimately show ?thesis unfolding title_part_matches by blast
qed

lemma author_title_newline_free:
  "CHR 0x0A \<notin> set r \<Longrightarrow> run (Seq author_part title_part) (p, r, g) \<noteq> []"
  unfolding author_title_matches using title_part_newline_free by blast

lemma run_filename_pattern:
  "run filename_pattern ([], cn, g0) =
     concat (map (run (Seq author_part title_part))
       (if 4 \<le> length (takeWhile isdigit cn)
        then run hyphen_sep (take 4 cn, drop 4 cn, g0(1 := Some (take 4 cn))) else [])) @
     run (Seq author_part title_part) ([], cn, g0)"
  by (simp add: filename_pattern_def year_part_def)

lemma concat_map_rev_upt_Nil:
  "(\<And>n. n \<le> k \<Longrightarrow> f n = []) \<Longrightarrow> concat (map f (rev [0 ..< k])) = []"
  by simp

lemma hd_in_set_append: "xs @ ys = z # zs \<Longrightarrow> xs \<noteq> [] \<Longrightarrow> z \<in> set xs"
  by (cases xs) auto

text \<open>
  The first match of the whole pattern comes out of the author and title parts started
  either at the beginning of the name (no year) or behind the year, its hyphen and all
  the whitespace after the hyphen; in both cases the text ahead does not begin with
  whitespace.
\<close>

lemma first_match_origin:
  assumes L: "run filename_pattern ([], cn, \<lambda>_. None) = x # xs"
    and cn: "cn = [] \<or> \<not> isspace (hd cn)"
  shows "\<exists>p r g. x \<in> set (run (Seq author_part title_part) (p, r, g)) \<and> p @ r = cn \<and>
           (r = [] \<or> \<not> isspace (hd r)) \<and> g 2 = None \<and>
           ((g 1 = None \<and> p = [] \<and>
             \<not> (4 \<le> length (takeWhile isdigit cn) \<and>
                (\<exists>r1. dropWhile isspace (drop 4 cn) = CHR ''-'' # r1) \<and> CHR 0x0A \<notin> set cn)) \<or>
            (g 1 = Some (take 4 cn) \<and> 4 \<le> length (takeWhile isdigit cn) \<and>
             (\<exists>r1. dropWhile isspace (drop 4 cn) = CHR ''-'' # r1)))"
proof -
  let ?g0 = "(\<lambda>_. None) :: nat \<Rightarrow> string option"
  let ?F = "run (Seq author_part title_part)"
  let ?Ys = "if 4 \<le> length (takeWhile isdigit cn)
        then run hyphen_sep (take 4 cn, drop 4 cn, ?g0(1 := Some (take 4 cn))) else []"
  have Leq: "concat (map ?F ?Ys) @ ?F ([], cn, ?g0) = x # xs"
    using L unfolding run_filename_pattern .
  show ?thesis
  proof (cases "concat (map ?F ?Ys) = []")
    case True
    with Leq have x: "x \<in> set (?F ([], cn, ?g0))" by (simp del: run.simps)
    have "\<not> (4 \<le> length (takeWhile isdigit cn) \<and>
                (\<exists>r1. dropWhile isspace (drop 4 cn) = CHR ''-'' # r1) \<and> CHR 0x0A \<notin> set cn)"
    proof (rule notI, elim conjE exE)
      fix r1
      assume d4: "4 \<le> length (takeWhile isdigit cn)"
        and r1: "dropWhile isspace (drop 4 cn) = CHR ''-'' # r1"
        and nl: "CHR 0x0A \<notin> set cn"
      let ?k = "length (takeWhile isspace r1)"
      let ?Y = "\<lambda>n. (take 4 cn @ takeWhile isspace (drop 4 cn) @ CHR ''-'' # take n r1, drop n r1,
                     ?g0(1 := Some (take 4 cn)))"
      have Ys: "?Ys = map ?Y (rev [0 ..< Suc ?k])"
        using d4 r1 unfolding run_hyphen_sep by simp
      have "set (drop ?k r1) \<subseteq> set r1" by (rule set_drop_subset)
      also have "\<dots> \<subseteq> set (dropWhile isspace (drop 4 cn))" unfolding r1 by auto
      also have "\<dots> \<subseteq> set (drop 4 cn)" by (auto dest: set_dropWhileD)
      also have "\<dots> \<subseteq> set cn" by (rule set_drop_subset)
      finally have "CHR 0x0A \<notin> set (drop ?k r1)" using nl by blast
      then have "?F (?Y ?k) \<noteq> []" by (rule author_title_newline_free)
      moreover have "concat (map ?F ?Ys) =
          ?F (?Y ?k) @ concat (map (\<lambda>n. ?F (?Y n)) (rev [0 ..< ?k]))"
        unfolding Ys by (simp add: comp_def del: run.simps)
      ultimately show False using True by (simp del: run.simps)
    qed
    with x cn show ?thesis
      by (intro exI [of _ "[]"] exI [of _ cn] exI [of _ ?g0]) (simp del: run.simps)
  next
    case False
    then have d4: "4 \<le> length (takeWhile isdigit cn)" by (auto simp del: run.simps split: if_splits)
    let ?g1 = "?g0(1 := Some (take 4 cn))"
    from False d4 have ne: "run hyphen_sep (take 4 cn, drop 4 cn, ?g1) \<noteq> []"
      by (auto simp del: run.simps)
    then obtain r1 where r1: "dropWhile isspace (drop 4 cn) = CHR ''-'' # r1"
      unfolding run_hyphen_sep by (auto split: list.splits if_splits)
    let ?k = "length (takeWhile isspace r1)"
    let ?Y = "\<lambda>n. (take 4 cn @ takeWhile isspace (drop 4 cn) @ CHR ''-'' # take n r1, drop n r1, ?g1)"
    have Ys: "?Ys = map ?Y (rev [0 ..< Suc ?k])"
      using d4 r1 unfolding run_hyphen_sep by simp
    have cc: "concat (map ?F ?Ys) = ?F (?Y ?k) @ concat (map (\<lambda>n. ?F (?Y n)) (rev [0 ..< ?k]))"
      unfolding Ys by (simp add: comp_def del: run.simps)
    have nek: "?F (?Y ?k) \<noteq> []"
    proof
      assume e: "?F (?Y ?k) = []"
      have "?F (?Y n) = []" if "n \<le> ?k" for n
      proof (rule ccontr)
        assume "?F (?Y n) \<noteq> []"
        from author_title_drop [OF order_refl that this] e show False by blast
      qed
      then have "concat (map (\<lambda>n. ?F (?Y n)) (rev [0 ..< ?k])) = []"
        by (rule concat_map_rev_upt_Nil)
      with e cc False show False by (simp del: run.simps)
    qed
    from cc Leq have "?F (?Y ?k) @
        (concat (map (\<lambda>n. ?F (?Y n)) (rev [0 ..< ?k])) @ ?F ([], cn, ?g0)) = x # xs"
      by (simp del: run.simps)
    then have x: "x \<in> set (?F (?Y ?k))" using nek by (rule hd_in_set_append)
    have "takeWhile isspace (drop 4 cn) @ dropWhile isspace (drop 4 cn) = drop 4 cn"
      by (rule takeWhile_dropWhile_id)
    with r1 have "takeWhile isspace (drop 4 cn) @ CHR ''-'' # take ?k r1 @ drop ?k r1 = drop 4 cn"
      by simp
    then have "(take 4 cn @ takeWhile isspace (drop 4 cn) @ CHR ''-'' # take ?k r1) @ drop ?k r1
          = take 4 cn @ drop 4 cn" by simp
    then have pr: "(take 4 cn @ takeWhile isspace (drop 4 cn) @ CHR ''-'' # take ?k r1) @ drop ?k r1 = cn"
      by simp
    have dk: "drop ?k r1 = dropWhile isspace r1" by (simp only: take_length_takeWhile)
    have clean: "drop ?k r1 = [] \<or> \<not> isspace (hd (drop ?k r1))"
      unfolding dk using hd_dropWhile [of isspace r1] by blast
    from x pr clean d4 r1 show ?thesis
      by (intro exI [of _ "take 4 cn @ takeWhile isspace (drop 4 cn) @ CHR ''-'' # take ?k r1"]
          exI [of _ "drop ?k r1"] exI [of _ ?g1]) (simp del: run.simps)
  qed
qed

lemma clean_name_stripped: "strip (clean_name f) = clean_name f"
  by (simp add: clean_name_def strip_strip)

lemma stripped_start: "strip s = s \<Longrightarrow> s = [] \<or> \<not> isspace (hd s)"
  using strip_ends(1) [of s] by auto

lemma stripped_end: "strip s = s \<Longrightarrow> s \<noteq> [] \<Longrightarrow> \<not> isspace (last s)"
  using strip_ends(2) [of s] by auto

text \<open>The groups of the first match on a stripped name.\<close>

lemma first_match_groups:
  assumes m: "re_match filename_pattern cn = Some g" and st: "strip cn = cn"
  shows "(g 1 = None \<and>
           \<not> (4 \<le> length (takeWhile isdigit cn) \<and>
              (\<exists>r1. dropWhile isspace (drop 4 cn) = CHR ''-'' # r1) \<and> CHR 0x0A \<notin> set cn)) \<or>
         (g 1 = Some (take 4 cn) \<and> 4 \<le> length (takeWhile isdigit cn) \<and>
           (\<exists>r1. dropWhile isspace (drop 4 cn) = CHR ''-'' # r1))"
    and "g 2 = None \<or> g 2 = Some [] \<or> (\<exists>a. g 2 = Some a \<and> a \<noteq> [] \<and> \<not> isspace (hd a))"
    and "\<exists>t q. g 3 = Some t \<and> cn = q @ t"
    and "CHR ''-'' \<notin> set cn \<Longrightarrow> g 1 = None \<and> g 2 = None \<and> g 3 = Some cn"
proof -
  from m obtain p' r' xs where L: "run filename_pattern ([], cn, \<lambda>_. None) = (p', r', g) # xs"
    by (auto simp: re_match_def split: list.splits)
  from first_match_origin [OF L stripped_start [OF st]]
  obtain p r g0 where x: "(p', r', g) \<in> set (run (Seq author_part title_part) (p, r, g0))"
    and pr: "p @ r = cn" and clean: "r = [] \<or> \<not> isspace (hd r)" and g02: "g0 2 = None"
    and g01: "(g0 1 = None \<and> p = [] \<and>
             \<not> (4 \<le> length (takeWhile isdigit cn) \<and>
                (\<exists>r1. dropWhile isspace (drop 4 cn) = CHR ''-'' # r1) \<and> CHR 0x0A \<notin> set cn)) \<or>
            (g0 1 = Some (take 4 cn) \<and> 4 \<le> length (takeWhile isdigit cn) \<and>
             (\<exists>r1. dropWhile isspace (drop 4 cn) = CHR ''-'' # r1))"
    by blast
  note o = author_title_outcome [OF x]
  show y: "(g 1 = None \<and>
           \<not> (4 \<le> length (takeWhile isdigit cn) \<and>
              (\<exists>r1. dropWhile isspace (drop 4 cn) = CHR ''-'' # r1) \<and> CHR 0x0A \<notin> set cn)) \<or>
         (g 1 = Some (take 4 cn) \<and> 4 \<le> length (takeWhile isdigit cn) \<and>
           (\<exists>r1. dropWhile isspace (drop 4 cn) = CHR ''-'' # r1))"
    unfolding o(1) using g01 by blast
  show "g 2 = None \<or> g 2 = Some [] \<or> (\<exists>a. g 2 = Some a \<and> a \<noteq> [] \<and> \<not> isspace (hd a))"
  proof -
    from o(5) consider "g 2 = g0 2" | n where "g 2 = Some (take n r)" by blast
    then show ?thesis
    proof cases
      case 1
      with g02 show ?thesis by simp
    next
      case 2
      show ?thesis
      proof (cases "take n r = []")
        case True
        with 2 show ?thesis by simp
      next
        case False
        then have "r \<noteq> []" "n \<noteq> 0" by auto
        then have "hd (take n r) = hd r" by (cases r; cases n) auto
        with clean \<open>r \<noteq> []\<close> have "\<not> isspace (hd (take n r))" by simp
        with 2 False show ?thesis by blast
      qed
    qed
  qed
  have r': "r' = []"
  proof (rule ccontr)
    assume "r' \<noteq> []"
    with o(3) have "r' = [CHR 0x0A]" by simp
    with o(2) pr have "cn = p' @ [CHR 0x0A]" by simp
    then have "cn \<noteq> []" "last cn = CHR 0x0A" by simp_all
    with stripped_end [OF st] show False by (simp add: isspace_newline)
  qed
  with o(2) pr have p': "p' = cn" by simp
  with o(4) show "\<exists>t q. g 3 = Some t \<and> cn = q @ t" by blast
  assume nh: "CHR ''-'' \<notin> set cn"
  have "dropWhile isspace (drop 4 cn) \<noteq> CHR ''-'' # r1" for r1
  proof
    assume "dropWhile isspace (drop 4 cn) = CHR ''-'' # r1"
    then have "CHR ''-'' \<in> set (dropWhile isspace (drop 4 cn))" by simp
    then have "CHR ''-'' \<in> set (drop 4 cn)" by (rule set_dropWhileD)
    then have "CHR ''-'' \<in> set cn" by (rule in_set_dropD)
    with nh show False ..
  qed
  with y g01 o(1) have g1: "g 1 = None" and p: "p = []" by auto
  from nh pr have "CHR ''-'' \<notin> set r" by auto
  with o(5) have "g 2 = g0 2" "g 3 = Some (drop (length p) p')" by auto
  with g02 p p' g1 show "g 1 = None \<and> g 2 = None \<and> g 3 = Some cn" by simp
qed

lemma newline_free_match:
  assumes "CHR 0x0A \<notin> set cn"
  shows "re_match filename_pattern cn \<noteq> None"
proof -
  from assms have "run (Seq author_part title_part) ([], cn, \<lambda>_. None) \<noteq> []"
    by (rule author_title_newline_free)
  then have "run filename_pattern ([], cn, \<lambda>_. None) \<noteq> []"
    unfolding run_filename_pattern by (simp del: run.simps)
  then show ?thesis by (auto simp: re_match_def split: list.splits)
qed


lemma strip_no_space: "\<forall>c\<in>set s. \<not> isspace c \<Longrightarrow> strip s = s"
proof (cases "s = []")
  case True
  then show ?thesis by (simp add: strip_def)
next
  case False
  assume "\<forall>c\<in>set s. \<not> isspace c"
  with False have "\<not> isspace (hd s)" "\<not> isspace (last s)" by simp_all
  with False show ?thesis by (rule strip_id)
qed

lemma isdigit_not_isspace: "isdigit c \<Longrightarrow> \<not> isspace c"
  by (auto simp: isdigit_def isspace_def)

lemma strip_hd_not_Nil: "a \<noteq> [] \<Longrightarrow> \<not> isspace (hd a) \<Longrightarrow> strip a \<noteq> []"
  unfolding strip_eq_Nil_iff using hd_in_set by blast

lemma strip_last_not_Nil: "a \<noteq> [] \<Longrightarrow> \<not> isspace (last a) \<Longrightarrow> strip a \<noteq> []"
  unfolding strip_eq_Nil_iff using last_in_set by blast

text \<open>
  A name starts with four digits, optional whitespace and a hyphen exactly when the year
  group and the separator behind it can match at its start.
\<close>

lemma year_prefix_iff:
  "(\<exists>d w r. cn = d @ w @ CHR ''-'' # r \<and> length d = 4 \<and> (\<forall>c\<in>set d. isdigit c) \<and>
      (\<forall>c\<in>set w. isspace c)) \<longleftrightarrow>
   4 \<le> length (takeWhile isdigit cn) \<and> (\<exists>r1. dropWhile isspace (drop 4 cn) = CHR ''-'' # r1)"
  (is "?L \<longleftrightarrow> ?R")
proof
  assume ?L
  then obtain d w r where cn: "cn = d @ w @ CHR ''-'' # r" and d: "length d = 4"
    "\<forall>c\<in>set d. isdigit c" and w: "\<forall>c\<in>set w. isspace c" by blast
  from d(2) have "takeWhile isdigit cn = d @ takeWhile isdigit (w @ CHR ''-'' # r)"
    unfolding cn by (intro takeWhile_append2) simp
  with d(1) have "4 \<le> length (takeWhile isdigit cn)" by simp
  moreover from d(1) have "drop 4 cn = w @ CHR ''-'' # r" unfolding cn by simp
  then have "dropWhile isspace (drop 4 cn) = CHR ''-'' # r"
    using w by (simp add: dropWhile_all not_isspace_hyphen)
  ultimately show ?R by blast
next
  assume ?R
  then obtain r1 where d4: "4 \<le> length (takeWhile isdigit cn)"
    and r1: "dropWhile isspace (drop 4 cn) = CHR ''-'' # r1" by blast
  from d4 have "4 \<le> length cn" using length_takeWhile_le [of isdigit cn] by simp
  then have l: "length (take 4 cn) = 4" by simp
  have dg: "\<forall>c\<in>set (take 4 cn). isdigit c" using take_takeWhile [OF d4] by blast
  have "takeWhile isspace (drop 4 cn) @ dropWhile isspace (drop 4 cn) = drop 4 cn"
    by (rule takeWhile_dropWhile_id)
  with r1 have "take 4 cn @ takeWhile isspace (drop 4 cn) @ CHR ''-'' # r1 = take 4 cn @ drop 4 cn"
    by simp
  then have "cn = take 4 cn @ takeWhile isspace (drop 4 cn) @ CHR ''-'' # r1" by simp
  moreover have "\<forall>c\<in>set (takeWhile isspace (drop 4 cn)). isspace c"
    by (auto dest: set_takeWhileD)
  ultimately show ?L using l dg by blast
qed

lemma year_prefix_take:
  "4 \<le> length (takeWhile isdigit cn) \<Longrightarrow> take 4 cn \<noteq> [] \<and> strip (take 4 cn) = take 4 cn"
proof -
  assume d4: "4 \<le> length (takeWhile isdigit cn)"
  then have "4 \<le> length cn" using length_takeWhile_le [of isdigit cn] by simp
  then have "length (take 4 cn) = 4" by simp
  then have "take 4 cn \<noteq> []" by auto
  moreover have "\<forall>c\<in>set (take 4 cn). \<not> isspace c"
    using take_takeWhile [OF d4] isdigit_not_isspace by blast
  then have "strip (take 4 cn) = take 4 cn" by (rule strip_no_space)
  ultimately show ?thesis by simp
qed

text \<open>
  Claim C10, as the code has it.  \<open>_parse_filename_metadata\<close> returns a triple for every
  filename and raises nothing.  With the cleaned name being the filename without
  \<open>.pdf\<close>, stripped: the year is \<open>Unknown\<close> or it is the first four characters of the
  cleaned name, and then the cleaned name starts with four digits, optional whitespace
  and a hyphen; when the cleaned name starts so and holds no line feed, the year is
  those four digits.  A cleaned name without a hyphen gives the author \<open>Unknown\<close> and
  the cleaned name as title.  When the cleaned name is not empty, none of the three
  components is empty; when it is empty, the title is empty.  When the pattern does
  not match (only possible with a line feed in the name) the result is \<open>Unknown\<close>,
  \<open>Unknown\<close> and the cleaned name.
\<close>

theorem parse_filename_metadata_result:
  "case parse_filename_metadata filename of
     (yr, auth, ttl) \<Rightarrow>
       (yr = ''Unknown'' \<or>
        (yr = take 4 (clean_name filename) \<and>
         (\<exists>d w r. clean_name filename = d @ w @ CHR ''-'' # r \<and> length d = 4 \<and>
            (\<forall>c\<in>set d. isdigit c) \<and> (\<forall>c\<in>set w. isspace c)))) \<and>
       ((\<exists>d w r. clean_name filename = d @ w @ CHR ''-'' # r \<and> length d = 4 \<and>
            (\<forall>c\<in>set d. isdigit c) \<and> (\<forall>c\<in>set w. isspace c)) \<and>
        CHR 0x0A \<notin> set (clean_name filename) \<longrightarrow> yr = take 4 (clean_name filename)) \<and>
       (CHR ''-'' \<notin> set (clean_name filename) \<longrightarrow>
          auth = ''Unknown'' \<and> ttl = clean_name filename) \<and>
       (clean_name filename \<noteq> [] \<longrightarrow> yr \<noteq> [] \<and> auth \<noteq> [] \<and> ttl \<noteq> []) \<and>
       (clean_name filename = [] \<longrightarrow> yr = ''Unknown'' \<and> auth = ''Unknown'' \<and> ttl = []) \<and>
       (re_match filename_pattern (clean_name filename) = None \<longrightarrow>
          yr = ''Unknown'' \<and> auth = ''Unknown'' \<and> ttl = clean_name filename)"
proof -
  let ?cn = "clean_name filename"
  let ?P = "\<exists>d w r. ?cn = d @ w @ CHR ''-'' # r \<and> length d = 4 \<and>
            (\<forall>c\<in>set d. isdigit c) \<and> (\<forall>c\<in>set w. isspace c)"
  have st: "strip ?cn = ?cn" by (rule clean_name_stripped)
  show ?thesis
  proof (cases "re_match filename_pattern ?cn")
    case None
    then have res: "parse_filename_metadata filename = (''Unknown'', ''Unknown'', ?cn)"
      by (simp add: parse_filename_metadata_def)
    from None have nl: "\<not> CHR 0x0A \<notin> set ?cn" using newline_free_match by blast
    then have "?cn \<noteq> []" by auto
    with res nl show ?thesis by simp
  next
    case (Some g)
    note G = first_match_groups [OF Some st]
    let ?yr = "if truthy (g 1) then strip (group_text (g 1)) else ''Unknown''"
    let ?a0 = "if truthy (g 2) then strip (group_text (g 2)) else ''Unknown''"
    obtain yr auth ttl where res: "parse_filename_metadata filename = (yr, auth, ttl)"
      by (cases "parse_filename_metadata filename")
    with Some have ag: "assign_groups (g 1) (g 2) (g 3) ?cn = (yr, auth, ttl)"
      by (simp add: parse_filename_metadata_def)
    then have yr: "yr = ?yr"
      and at: "(auth, ttl) =
         (if truthy (g 3) then (?a0, strip (group_text (g 3)))
          else if truthy (g 2) then (''Unknown'', strip (group_text (g 2)))
          else (?a0, ?cn))"
      by (auto simp: assign_groups_def Let_def split: if_splits)
    have year1: "yr = ''Unknown'' \<or> (yr = take 4 ?cn \<and> ?P)"
    proof -
      from G(1) consider "g 1 = None"
        | "g 1 = Some (take 4 ?cn)" "4 \<le> length (takeWhile isdigit ?cn)"
          "\<exists>r1. dropWhile isspace (drop 4 ?cn) = CHR ''-'' # r1" by auto
      then show ?thesis
      proof cases
        case 1
        with yr show ?thesis by (simp add: truthy_def)
      next
        case 2
        from year_prefix_take [OF 2(2)] 2(1) yr have "yr = take 4 ?cn"
          by (simp add: truthy_def group_text_def)
        moreover from 2(2,3) have ?P unfolding year_prefix_iff by (rule conjI)
        ultimately show ?thesis by (intro disjI2 conjI)
      qed
    qed
    have year2: "?P \<and> CHR 0x0A \<notin> set ?cn \<longrightarrow> yr = take 4 ?cn"
    proof
      assume a: "?P \<and> CHR 0x0A \<notin> set ?cn"
      then have p: "4 \<le> length (takeWhile isdigit ?cn)"
        "\<exists>r1. dropWhile isspace (drop 4 ?cn) = CHR ''-'' # r1"
        unfolding year_prefix_iff by simp_all
      with a G(1) have "g 1 = Some (take 4 ?cn)" by auto
      with year_prefix_take [OF p(1)] yr show "yr = take 4 ?cn"
        by (simp add: truthy_def group_text_def)
    qed
    have nohyphen: "CHR ''-'' \<notin> set ?cn \<longrightarrow> auth = ''Unknown'' \<and> ttl = ?cn"
    proof
      assume "CHR ''-'' \<notin> set ?cn"
      from G(4) [OF this] have g: "g 1 = None" "g 2 = None" "g 3 = Some ?cn" by simp_all
      then have "\<not> truthy (g 2)" "truthy (g 3) = (?cn \<noteq> [])" "group_text (g 3) = ?cn"
        by (simp_all add: truthy_def group_text_def)
      with at st show "auth = ''Unknown'' \<and> ttl = ?cn"
        by (auto split: if_splits)
    qed
    have a_ne: "strip (group_text (g 2)) \<noteq> []" if "truthy (g 2)"
    proof -
      from that obtain a where a: "g 2 = Some a" "a \<noteq> []"
        by (auto simp: truthy_def split: option.splits)
      with G(2) have "\<not> isspace (hd a)" by auto
      with a show ?thesis by (simp add: group_text_def strip_hd_not_Nil)
    qed
    have t_ne: "strip (group_text (g 3)) \<noteq> []" if "truthy (g 3)"
    proof -
      from that obtain t where t: "g 3 = Some t" "t \<noteq> []"
        by (auto simp: truthy_def split: option.splits)
      with G(3) obtain q where q: "?cn = q @ t" by auto
      with t(2) have "?cn \<noteq> []" "last ?cn = last t" by simp_all
      with stripped_end [OF st] have "\<not> isspace (last t)" by simp
      with t show ?thesis by (simp add: group_text_def strip_last_not_Nil)
    qed
    have nonempty: "?cn \<noteq> [] \<longrightarrow> yr \<noteq> [] \<and> auth \<noteq> [] \<and> ttl \<noteq> []"
    proof
      assume cn: "?cn \<noteq> []"
      from year1 have "yr \<noteq> []"
      proof
        assume "yr = ''Unknown''" then show ?thesis by simp
      next
        assume "yr = take 4 ?cn \<and> ?P"
        with cn show ?thesis by simp
      qed
      moreover from at a_ne t_ne cn have "auth \<noteq> [] \<and> ttl \<noteq> []"
        by (auto split: if_splits)
      ultimately show "yr \<noteq> [] \<and> auth \<noteq> [] \<and> ttl \<noteq> []" by simp
    qed
    have empty: "?cn = [] \<longrightarrow> yr = ''Unknown'' \<and> auth = ''Unknown'' \<and> ttl = []"
    proof
      assume e: "?cn = []"
      then have "CHR ''-'' \<notin> set ?cn" by simp
      with nohyphen e have "auth = ''Unknown'' \<and> ttl = []" by simp
      moreover from year1 e have "yr = ''Unknown''" by auto
      ultimately show "yr = ''Unknown'' \<and> auth = ''Unknown'' \<and> ttl = []" by simp
    qed
    from year1 year2 nohyphen nonempty empty Some show ?thesis
      unfolding res by simp
  qed
qed

text \<open>
  The filename \<open>.pdf\<close> gives an empty title; a name with a line feed behind the year
  does not match and keeps the year \<open>Unknown\<close>.
\<close>

theorem parse_filename_metadata_counterexample:
  "parse_filename_metadata ''.pdf'' = (''Unknown'', ''Unknown'', []) \<and>
   parse_filename_metadata ''2024 - a\<newline>b.pdf'' = (''Unknown'', ''Unknown'', ''2024 - a\<newline>b'')"
  by code_simp


theorem parse_filename_metadata_result_witness:
  "clean_name ''2024 - Smith - Title.pdf'' = ''2024'' @ '' '' @ CHR ''-'' # '' Smith - Title'' \<and>
   fst (parse_filename_metadata ''2024 - Smith - Title.pdf'') = ''2024'' \<and>
   parse_filename_metadata ''2024 - Smith - Title.pdf'' = (''2024'', ''Smith'', ''Title'') \<and>
   clean_name ''notes.pdf'' = ''notes'' \<and>
   snd (parse_filename_metadata ''notes.pdf'') = (''Unknown'', ''notes'')"
proof -
  let ?f1 = "''2024 - Smith - Title.pdf''"
  let ?f2 = "''notes.pdf''"
  have cn1: "clean_name ?f1 = ''2024'' @ '' '' @ CHR ''-'' # '' Smith - Title''" by code_simp
  have e1: "parse_filename_metadata ?f1 = (''2024'', ''Smith'', ''Title'')" by code_simp
  have cn2: "clean_name ?f2 = ''notes''" by code_simp
  have p1: "\<exists>d w r. clean_name ?f1 = d @ w @ CHR ''-'' # r \<and> length d = 4 \<and>
            (\<forall>c\<in>set d. isdigit c) \<and> (\<forall>c\<in>set w. isspace c)"
    by (intro exI [of _ "''2024''"] exI [of _ "'' ''"] exI [of _ "'' Smith - Title''"] conjI cn1)
       (simp_all add: isdigit_def isspace_def)
  have n1: "CHR 0x0A \<notin> set (clean_name ?f1)" unfolding cn1 by simp
  have t1: "take 4 (clean_name ?f1) = ''2024''" unfolding cn1 by simp
  from parse_filename_metadata_result [of ?f1] p1 n1
  have "fst (parse_filename_metadata ?f1) = take 4 (clean_name ?f1)"
    by (cases "parse_filename_metadata ?f1") simp
  with t1 have y1: "fst (parse_filename_metadata ?f1) = ''2024''" by simp
  have nh: "CHR ''-'' \<notin> set (clean_name ?f2)" unfolding cn2 by simp
  from parse_filename_metadata_result [of ?f2] nh
  have "snd (parse_filename_metadata ?f2) = (''Unknown'', clean_name ?f2)"
    by (cases "parse_filename_metadata ?f2") simp
  with cn2 have "snd (parse_filename_metadata ?f2) = (''Unknown'', ''notes'')" by simp
  with cn1 y1 e1 cn2 show ?thesis by (intro conjI)
qed

end
